theory Spec2Isabelle
  imports Complex_Main "HOL-Library.Monad_Syntax"
begin

section \<open>The line calculator: data model\<close>

text \<open>
  The repository holds two variants of the same evaluator, both exporting
  \<^verbatim>\<open>process_line(current, line)\<close>:
  \<^item> \<^verbatim>\<open>src/calc.cpp\<close>, which detects a left fold by a leading bracket and a later closing
    bracket (\<^verbatim>\<open>is_fold\<close>) and strips the bracket before recognising the operator; its
    functions carry the suffix \<open>_calc\<close> where the other file has one of the same name;
  \<^item> \<^verbatim>\<open>unnamed/part_000\<close>, which detects a left fold by the characters at positions 0
    and 2 and evaluates it in \<^verbatim>\<open>left_fold\<close>; its functions carry the suffix \<open>_p0\<close>
    where the names clash.
  \<^verbatim>\<open>arity\<close>, \<^verbatim>\<open>skip_ws\<close> and \<^verbatim>\<open>unary\<close> are the same text in both files and are
  modelled once.

  Three effects of the C++ are made explicit:
  \<^item> \<^verbatim>\<open>double\<close> arithmetic is a parameter: a record \<open>'d dops\<close> of the operations the
    code applies to doubles. Every theorem stated for an arbitrary \<open>ops\<close> holds for IEEE
    arithmetic as for any other; the worked examples use \<open>exact_ops\<close>, real arithmetic,
    which agrees with IEEE doubles where these do not round (the small integers of the
    examples); a fractional example gives the exact value, which a double rounds.
  \<^item> what is written to \<^verbatim>\<open>std::cerr\<close> is returned as a list of diagnostics, in order;
  \<^item> \<^verbatim>\<open>line[i]\<close> is defined for \<open>i \<le> size\<close> (the character at \<open>size\<close> is NUL) and
    undefined behaviour beyond: \<open>char_at\<close> returns \<open>None\<close> there, and the functions
    that read at an unguarded index return an \<open>option\<close>.
\<close>

datatype Op = ERR | SET | ADD | SUB | MUL | DIV | REM | NEG | POW | SQRT

fun arity :: "Op \<Rightarrow> nat" where
  "arity ERR = 0"
| "arity NEG = 1"
| "arity SQRT = 1"
| "arity SET = 2"
| "arity ADD = 2"
| "arity SUB = 2"
| "arity MUL = 2"
| "arity DIV = 2"
| "arity REM = 2"
| "arity POW = 2"

text \<open>The messages written to \<^verbatim>\<open>std::cerr\<close>, with the text they print of the line.
  The doubles some of them print are left out.\<close>

datatype diag =
    UnknownOperation string            \<comment> \<open>\<^verbatim>\<open>Unknown operation <line>\<close>\<close>
  | ArgParsingError nat string         \<comment> \<open>\<^verbatim>\<open>Argument parsing error at <i>: '<suffix>'\<close>\<close>
  | SuffixLeft string                  \<comment> \<open>\<^verbatim>\<open>Argument isn't fully parsed, suffix left: '<suffix>'\<close>\<close>
  | BadSqrtArg                         \<comment> \<open>\<^verbatim>\<open>Bad argument for SQRT: <current>\<close>\<close>
  | BadDivArg                          \<comment> \<open>\<^verbatim>\<open>Bad right argument for division: <right>\<close>\<close>
  | BadRemArg                          \<comment> \<open>\<^verbatim>\<open>Bad right argument for remainder: <right>\<close>\<close>
  | NoArgumentBinary                   \<comment> \<open>\<^verbatim>\<open>No argument for a binary operation\<close>\<close>
  | UnexpectedSuffix string            \<comment> \<open>\<^verbatim>\<open>Unexpected suffix for a unary operation: '<suffix>'\<close>\<close>
  | WrongOperationLeftFold             \<comment> \<open>\<^verbatim>\<open>Wrong operation left fold\<close> (calc.cpp)\<close>
  | LeftFoldOnlyBinary                 \<comment> \<open>\<^verbatim>\<open>Left convolutional is work only binary opertion\<close> (part_000)\<close>
  | NoArguments                        \<comment> \<open>\<^verbatim>\<open>No arguments\<close> (part_000)\<close>
  | WrongArguments                     \<comment> \<open>\<^verbatim>\<open>Wrong arguments\<close> (part_000)\<close>

text \<open>The operations on \<^verbatim>\<open>double\<close> that the code uses. \<open>d_lit n\<close> is the conversion of
  the integer \<open>n\<close> to a double (the constants 0, 1, 10 and the digit values);
  \<open>d_gt0 x\<close> is \<^verbatim>\<open>x > 0\<close> and \<open>d_ne0 x\<close> is \<^verbatim>\<open>x != 0\<close>.\<close>

record 'd dops =
  d_lit :: "nat \<Rightarrow> 'd"
  d_add :: "'d \<Rightarrow> 'd \<Rightarrow> 'd"
  d_sub :: "'d \<Rightarrow> 'd \<Rightarrow> 'd"
  d_mul :: "'d \<Rightarrow> 'd \<Rightarrow> 'd"
  d_div :: "'d \<Rightarrow> 'd \<Rightarrow> 'd"
  d_neg :: "'d \<Rightarrow> 'd"
  d_sqrt :: "'d \<Rightarrow> 'd"
  d_fmod :: "'d \<Rightarrow> 'd \<Rightarrow> 'd"
  d_pow :: "'d \<Rightarrow> 'd \<Rightarrow> 'd"
  d_gt0 :: "'d \<Rightarrow> bool"
  d_ne0 :: "'d \<Rightarrow> bool"

text \<open>Exact arithmetic on the reals. The remainder truncates the quotient towards zero
  (as \<^verbatim>\<open>std::fmod\<close> does); the power is the real one, and is only meant where
  \<^verbatim>\<open>std::pow\<close> has a real value.\<close>

definition fmod_real :: "real \<Rightarrow> real \<Rightarrow> real" where
  "fmod_real x y = x - y * of_int (if 0 \<le> x / y then \<lfloor>x / y\<rfloor> else \<lceil>x / y\<rceil>)"

definition pow_real :: "real \<Rightarrow> real \<Rightarrow> real" where
  "pow_real x y = (if y = of_int \<lfloor>y\<rfloor> then x powi \<lfloor>y\<rfloor> else x powr y)"

definition exact_ops :: "real dops" where
  "exact_ops = \<lparr> d_lit = real, d_add = (+), d_sub = (-), d_mul = times, d_div = (/),
     d_neg = uminus, d_sqrt = sqrt, d_fmod = fmod_real, d_pow = pow_real,
     d_gt0 = (\<lambda>x. x > 0), d_ne0 = (\<lambda>x. x \<noteq> 0) \<rparr>"

subsection \<open>Characters and strings\<close>

definition max_decimal_digits :: nat where
  "max_decimal_digits = 10"

text \<open>\<^verbatim>\<open>line[i]\<close> of a \<^verbatim>\<open>std::string\<close>.\<close>

definition char_at :: "string \<Rightarrow> nat \<Rightarrow> char option" where
  "char_at line i =
     (if i < length line then Some (line ! i)
      else if i = length line then Some (CHR 0x00)
      else None)"

text \<open>\<^verbatim>\<open>std::isspace\<close> in the C locale: space, and the controls from tab to carriage
  return. (The code passes a \<^verbatim>\<open>char\<close>; for a byte above 127 the call is not defined by
  the standard, and the model answers \<open>False\<close> as the C locale does for such a value.)\<close>

definition isspace :: "char \<Rightarrow> bool" where
  "isspace c = (c = CHR '' '' \<or> c = CHR 0x09 \<or> c = CHR 0x0A \<or> c = CHR 0x0B \<or> c = CHR 0x0C \<or> c = CHR 0x0D)"

text \<open>The ten \<^verbatim>\<open>case '0': ... case '9':\<close> labels, and \<^verbatim>\<open>line[i] - '0'\<close>.\<close>

definition is_digit :: "char \<Rightarrow> bool" where
  "is_digit c = (c \<in> set ''0123456789'')"

definition digit_val :: "char \<Rightarrow> nat" where
  "digit_val c = of_char c - of_char (CHR ''0'')"

text \<open>\<^verbatim>\<open>line.substr(pos, len)\<close> for \<open>pos \<le> size\<close> (it throws beyond; every call of the
  code has \<open>pos \<le> size\<close>).\<close>

definition substr :: "string \<Rightarrow> nat \<Rightarrow> nat \<Rightarrow> string" where
  "substr line pos len = take len (drop pos line)"

section \<open>Functions shared by the two files\<close>

function skip_ws :: "string \<Rightarrow> nat \<Rightarrow> nat" where
  "skip_ws line i = (if i < length line \<and> isspace (line ! i) then skip_ws line (i + 1) else i)"
  by pat_completeness auto
termination
  by (relation "measure (\<lambda>(line, i). length line - i)") auto

declare skip_ws.simps [simp del]

text \<open>\<^verbatim>\<open>unary\<close>: the \<^verbatim>\<open>SQRT\<close> case falls through to \<^verbatim>\<open>default\<close> after its message.\<close>

definition unary :: "'d dops \<Rightarrow> 'd \<Rightarrow> Op \<Rightarrow> 'd \<times> diag list" where
  "unary ops current op =
     (case op of
        NEG \<Rightarrow> (d_neg ops current, [])
      | SQRT \<Rightarrow> (if d_gt0 ops current then (d_sqrt ops current, []) else (current, [BadSqrtArg]))
      | _ \<Rightarrow> (current, []))"

text \<open>The \<^verbatim>\<open>switch\<close> of \<^verbatim>\<open>parse_op\<close>, the whole function in part_000: the operation, the
  new cursor and the messages. \<^verbatim>\<open>rollback(n)\<close> undoes the \<open>n\<close> increments made so far.\<close>

definition rollback :: "string \<Rightarrow> nat \<Rightarrow> (Op \<times> nat \<times> diag list) option" where
  "rollback line i = Some (ERR, i, [UnknownOperation line])"

definition parse_op_p0 :: "string \<Rightarrow> nat \<Rightarrow> (Op \<times> nat \<times> diag list) option" where
  "parse_op_p0 line i = do {
     c0 \<leftarrow> char_at line i;
     if is_digit c0 then Some (SET, i, [])
     else if c0 = CHR ''+'' then Some (ADD, i + 1, [])
     else if c0 = CHR ''-'' then Some (SUB, i + 1, [])
     else if c0 = CHR ''*'' then Some (MUL, i + 1, [])
     else if c0 = CHR ''/'' then Some (DIV, i + 1, [])
     else if c0 = CHR ''%'' then Some (REM, i + 1, [])
     else if c0 = CHR ''_'' then Some (NEG, i + 1, [])
     else if c0 = CHR ''^'' then Some (POW, i + 1, [])
     else if c0 = CHR ''S'' then do {
       c1 \<leftarrow> char_at line (i + 1);
       if c1 = CHR ''Q'' then do {
         c2 \<leftarrow> char_at line (i + 2);
         if c2 = CHR ''R'' then do {
           c3 \<leftarrow> char_at line (i + 3);
           if c3 = CHR ''T'' then Some (SQRT, i + 4, [])
           else rollback line i
         }
         else rollback line i
       }
       else rollback line i
     }
     else rollback line i
   }"

section \<open>The literal parser\<close>

text \<open>The \<^verbatim>\<open>while\<close> loop of \<^verbatim>\<open>parse_arg\<close>, the same in both files. The state is the
  locals \<^verbatim>\<open>res\<close>, \<^verbatim>\<open>i\<close>, \<^verbatim>\<open>count\<close>, \<^verbatim>\<open>integer\<close>, \<^verbatim>\<open>fraction\<close> and \<^verbatim>\<open>good\<close>;
  the result is \<^verbatim>\<open>res\<close>, \<^verbatim>\<open>i\<close> and \<^verbatim>\<open>good\<close> at the exit.\<close>

function parse_arg_loop ::
  "'d dops \<Rightarrow> string \<Rightarrow> 'd \<Rightarrow> nat \<Rightarrow> nat \<Rightarrow> bool \<Rightarrow> 'd \<Rightarrow> bool \<Rightarrow> 'd \<times> nat \<times> bool" where
  "parse_arg_loop ops line res i count integer fraction good =
     (if good \<and> i < length line \<and> count < max_decimal_digits then
        (if is_digit (line ! i) then
           (if integer then
              parse_arg_loop ops line
                (d_add ops (d_mul ops res (d_lit ops 10)) (d_lit ops (digit_val (line ! i))))
                (i + 1) (count + 1) integer fraction good
            else
              parse_arg_loop ops line
                (d_add ops res
                   (d_mul ops (d_lit ops (digit_val (line ! i))) (d_div ops fraction (d_lit ops 10))))
                (i + 1) (count + 1) integer (d_div ops fraction (d_lit ops 10)) good)
         else if line ! i = CHR ''.'' then
           parse_arg_loop ops line res (i + 1) count False fraction good
         else
           parse_arg_loop ops line res i count integer fraction False)
      else (res, i, good))"
  by pat_completeness auto
termination
  by (relation "measure (\<lambda>(ops, line, res, i, count, integer, fraction, good).
        2 * (length line - i) + (if good then 1 else 0))") auto

declare parse_arg_loop.simps [simp del]

text \<open>\<^verbatim>\<open>parse_arg\<close> of calc.cpp: \<^verbatim>\<open>good\<close> comes from the caller and is not reset; a suffix
  left after the literal clears it.\<close>

definition parse_arg_calc :: "'d dops \<Rightarrow> string \<Rightarrow> nat \<Rightarrow> bool \<Rightarrow> 'd \<times> nat \<times> bool \<times> diag list" where
  "parse_arg_calc ops line i good =
     (case parse_arg_loop ops line (d_lit ops 0) i 0 True (d_lit ops 1) good of
        (res, i', good') \<Rightarrow>
          if \<not> good' then (res, i', False, [ArgParsingError i' (drop i' line)])
          else if i' < length line then (res, i', False, [SuffixLeft (drop i' line)])
          else (res, i', True, []))"

text \<open>\<^verbatim>\<open>parse_arg\<close> of part_000: \<^verbatim>\<open>good\<close> is set on entry; a suffix left after the
  literal is reported and \<^verbatim>\<open>good\<close> stays set.\<close>

definition parse_arg_p0 :: "'d dops \<Rightarrow> string \<Rightarrow> nat \<Rightarrow> 'd \<times> nat \<times> bool \<times> diag list" where
  "parse_arg_p0 ops line i =
     (case parse_arg_loop ops line (d_lit ops 0) i 0 True (d_lit ops 1) True of
        (res, i', good') \<Rightarrow>
          if \<not> good' then (res, i', False, [ArgParsingError i' (drop i' line)])
          else if i' < length line then (res, i', True, [SuffixLeft (drop i' line)])
          else (res, i', True, []))"

section \<open>Binary operations\<close>

text \<open>\<^verbatim>\<open>binary\<close> of calc.cpp: \<^verbatim>\<open>good\<close> is only ever cleared.\<close>

definition binary_calc :: "'d dops \<Rightarrow> Op \<Rightarrow> 'd \<Rightarrow> 'd \<Rightarrow> bool \<Rightarrow> 'd \<times> bool \<times> diag list" where
  "binary_calc ops op left right good =
     (case op of
        SET \<Rightarrow> (right, good, [])
      | ADD \<Rightarrow> (d_add ops left right, good, [])
      | SUB \<Rightarrow> (d_sub ops left right, good, [])
      | MUL \<Rightarrow> (d_mul ops left right, good, [])
      | DIV \<Rightarrow> (if d_ne0 ops right then (d_div ops left right, good, [])
                 else (left, False, [BadDivArg]))
      | REM \<Rightarrow> (if d_ne0 ops right then (d_fmod ops left right, good, [])
                 else (left, False, [BadRemArg]))
      | POW \<Rightarrow> (d_pow ops left right, good, [])
      | _ \<Rightarrow> (left, good, []))"

text \<open>\<^verbatim>\<open>binary\<close> of part_000: \<^verbatim>\<open>good\<close> is set on entry.\<close>

definition binary_p0 :: "'d dops \<Rightarrow> Op \<Rightarrow> 'd \<Rightarrow> 'd \<Rightarrow> 'd \<times> bool \<times> diag list" where
  "binary_p0 ops op left right = binary_calc ops op left right True"

section \<open>The evaluator of calc.cpp\<close>

text \<open>\<^verbatim>\<open>delete_brackets\<close>: the \<^verbatim>\<open>for\<close> loop, entered at \<open>i = 0\<close> when \<^verbatim>\<open>line[0] == '('\<close>,
  so that \<open>i \<ge> 1\<close> where a closing bracket is found. Both \<^verbatim>\<open>substr\<close> calls start
  within the line, and the second length, \<^verbatim>\<open>size - i + 1\<close>, reaches past its end.\<close>

function delete_brackets_loop :: "string \<Rightarrow> nat \<Rightarrow> string" where
  "delete_brackets_loop line i =
     (if i < length line then
        (if line ! i = CHR '')'' then
           substr line 1 (i - 1) @ substr line (i + 1) (length line - i + 1)
         else if isspace (line ! i) then line
         else delete_brackets_loop line (i + 1))
      else line)"
  by pat_completeness auto
termination
  by (relation "measure (\<lambda>(line, i). length line - i)") auto

declare delete_brackets_loop.simps [simp del]

definition delete_brackets :: "string \<Rightarrow> string" where
  "delete_brackets line =
     (if char_at line 0 = Some (CHR ''('') then delete_brackets_loop line 0 else line)"

definition parse_op_calc :: "string \<Rightarrow> nat \<Rightarrow> (Op \<times> nat \<times> diag list) option" where
  "parse_op_calc line_raw i = parse_op_p0 (delete_brackets line_raw) i"

function skip_brackets_loop :: "string \<Rightarrow> nat \<Rightarrow> nat \<Rightarrow> nat" where
  "skip_brackets_loop line old_i i =
     (if i < length line then
        (if line ! i = CHR '')'' then i + 1 else skip_brackets_loop line old_i (i + 1))
      else old_i)"
  by pat_completeness auto
termination
  by (relation "measure (\<lambda>(line, old_i, i). length line - i)") auto

declare skip_brackets_loop.simps [simp del]

definition skip_brackets_calc :: "string \<Rightarrow> nat \<Rightarrow> nat" where
  "skip_brackets_calc line i =
     (if char_at line 0 = Some (CHR ''('') then skip_brackets_loop line i i else i)"

definition is_fold :: "string \<Rightarrow> bool" where
  "is_fold line = (if char_at line 0 = Some (CHR ''('') then CHR '')'' \<in> set line else False)"

text \<open>\<^verbatim>\<open>parse_number_length\<close> of calc.cpp, which is \<^verbatim>\<open>parse_number\<close> of part_000: the
  count of characters from \<open>i\<close> to the next whitespace or the end.\<close>

function parse_number_length_loop :: "string \<Rightarrow> nat \<Rightarrow> nat \<Rightarrow> nat" where
  "parse_number_length_loop line i count =
     (if i < length line \<and> \<not> isspace (line ! i)
      then parse_number_length_loop line (i + 1) (count + 1) else count)"
  by pat_completeness auto
termination
  by (relation "measure (\<lambda>(line, i, count). length line - i)") auto

declare parse_number_length_loop.simps [simp del]

definition parse_number_length :: "string \<Rightarrow> nat \<Rightarrow> nat" where
  "parse_number_length line i = parse_number_length_loop line i 0"

definition parse_number_p0 :: "string \<Rightarrow> nat \<Rightarrow> nat" where
  "parse_number_p0 line i = parse_number_length_loop line i 0"

text \<open>Progress of the two scanners, for the termination of the loops that call them.\<close>

lemma skip_ws_ge: "i \<le> skip_ws line i"
  by (induction line i rule: skip_ws.induct) (subst skip_ws.simps, auto)

lemma skip_ws_le: "i \<le> length line \<Longrightarrow> skip_ws line i \<le> length line"
  by (induction line i rule: skip_ws.induct) (subst skip_ws.simps, auto)

lemma skip_ws_space: "i < length line \<Longrightarrow> isspace (line ! i) \<Longrightarrow> i < skip_ws line i"
  using skip_ws_ge [of "i + 1" line] by (subst skip_ws.simps) simp

lemma skip_ws_nonspace: "\<not> (i < length line \<and> isspace (line ! i)) \<Longrightarrow> skip_ws line i = i"
  by (subst skip_ws.simps) auto

lemma parse_number_length_loop_ge: "count \<le> parse_number_length_loop line i count"
  by (induction line i count rule: parse_number_length_loop.induct)
     (subst parse_number_length_loop.simps, auto)

lemma parse_number_length_pos:
  "i < length line \<Longrightarrow> \<not> isspace (line ! i) \<Longrightarrow> 0 < parse_number_length line i"
  unfolding parse_number_length_def
  using parse_number_length_loop_ge [of 1 line "i + 1"]
  by (subst parse_number_length_loop.simps) simp

lemma token_progress:
  "i < length line \<Longrightarrow> i < skip_ws line i + parse_number_length line (skip_ws line i)"
proof (cases "isspace (line ! i)")
  case True
  assume "i < length line"
  with True have "i < skip_ws line i" by (rule skip_ws_space [rotated])
  then show ?thesis by simp
next
  case False
  assume "i < length line"
  with False show ?thesis
    by (simp add: skip_ws_nonspace parse_number_length_pos)
qed

lemma token_progress_p0:
  "i < length line \<Longrightarrow> i < skip_ws line (i + parse_number_p0 line i)"
proof (cases "isspace (line ! i)")
  case True
  assume "i < length line"
  with True have "i < skip_ws line i" by (rule skip_ws_space [rotated])
  also have "skip_ws line i \<le> skip_ws line (i + parse_number_p0 line i)"
    using True \<open>i < length line\<close>
    by (simp add: parse_number_p0_def parse_number_length_loop.simps [of line i])
  finally show ?thesis .
next
  case False
  assume "i < length line"
  with False have "0 < parse_number_p0 line i"
    using parse_number_length_pos [of i line]
    by (simp add: parse_number_p0_def parse_number_length_def)
  then show ?thesis
    using skip_ws_ge [of "i + parse_number_p0 line i" line] by simp
qed

text \<open>\<^verbatim>\<open>parse_number\<close> of calc.cpp: the whitespace-delimited tokens from \<open>i\<close> on, and the
  message when there is none.\<close>

function parse_number_loop :: "string \<Rightarrow> nat \<Rightarrow> string list \<Rightarrow> string list" where
  "parse_number_loop line i numbers =
     (if i < length line then
        (let i' = skip_ws line i;
             number_length = parse_number_length line i'
         in parse_number_loop line (i' + number_length)
              (if number_length \<noteq> 0 then numbers @ [substr line i' number_length] else numbers))
      else numbers)"
  by pat_completeness auto
termination
  by (relation "measure (\<lambda>(line, i, numbers). length line - i)")
     (auto simp: token_progress intro!: diff_less_mono2)

declare parse_number_loop.simps [simp del]

definition parse_number_calc :: "string \<Rightarrow> nat \<Rightarrow> string list \<times> diag list" where
  "parse_number_calc line i =
     (let numbers = parse_number_loop line i []
      in (numbers, if numbers = [] then [NoArgumentBinary] else []))"

text \<open>The \<^verbatim>\<open>for\<close> loop of \<^verbatim>\<open>process_line\<close> over the tokens, with the locals \<^verbatim>\<open>res\<close>,
  \<^verbatim>\<open>i\<close> and \<^verbatim>\<open>good\<close> and the messages so far.\<close>

fun process_numbers ::
  "'d dops \<Rightarrow> string \<Rightarrow> Op \<Rightarrow> 'd \<Rightarrow> 'd \<Rightarrow> nat \<Rightarrow> bool \<Rightarrow> diag list \<Rightarrow> string list \<Rightarrow> 'd \<times> diag list" where
  "process_numbers ops line op current res i good ds [] = (res, ds)"
| "process_numbers ops line op current res i good ds (str_number # numbers) =
     (if is_fold line then
        (if op = SET then (current, ds @ [WrongOperationLeftFold])
         else
           (case parse_arg_calc ops str_number 0 good of (arg, i', good', ds1) \<Rightarrow>
            case binary_calc ops op res arg good' of (res', good'', ds2) \<Rightarrow>
              if \<not> good'' then (current, ds @ ds1 @ ds2)
              else process_numbers ops line op current res' i' good'' (ds @ ds1 @ ds2) numbers))
      else
        (let old_i = skip_ws line i in
         case parse_arg_calc ops line old_i good of (arg, i', good', ds1) \<Rightarrow>
           if i' = old_i then (current, ds @ ds1 @ [NoArgumentBinary])
           else
             (case binary_calc ops op res arg good' of (res', good'', ds2) \<Rightarrow>
                if \<not> good'' then (current, ds @ ds1 @ ds2)
                else process_numbers ops line op current res' i' good'' (ds @ ds1 @ ds2) numbers)))"

declare process_numbers.simps(2) [simp del]

text \<open>\<^verbatim>\<open>process_line\<close> of calc.cpp. The cursor that \<^verbatim>\<open>parse_op\<close> returns counts in the
  line without its bracket, and is used on the line as given.\<close>

definition process_line_calc :: "'d dops \<Rightarrow> 'd \<Rightarrow> string \<Rightarrow> ('d \<times> diag list) option" where
  "process_line_calc ops current line = do {
     (op, i, ds0) \<leftarrow> parse_op_calc line 0;
     if arity op = 2 then
       (let i1 = skip_brackets_calc line i in
        case parse_number_calc line i1 of (numbers, ds1) \<Rightarrow>
          Some (process_numbers ops line op current current i1 True (ds0 @ ds1) numbers))
     else if arity op = 1 then
       (if i < length line then Some (current, ds0 @ [UnexpectedSuffix (drop i line)])
        else case unary ops current op of (res, ds1) \<Rightarrow> Some (res, ds0 @ ds1))
     else Some (current, ds0)
   }"

section \<open>The evaluator of part_000\<close>

text \<open>\<^verbatim>\<open>skip_brackets\<close> of part_000 increments before it reads: the read is at \<open>i + 1\<close>,
  at most the size, where \<open>char_at\<close> is defined.\<close>

function skip_brackets_p0 :: "string \<Rightarrow> nat \<Rightarrow> nat" where
  "skip_brackets_p0 line i =
     (if i < length line then
        (if char_at line (i + 1) = Some (CHR '')'') then i + 2 else skip_brackets_p0 line (i + 1))
      else i)"
  by pat_completeness auto
termination
  by (relation "measure (\<lambda>(line, i). length line - i)") auto

declare skip_brackets_p0.simps [simp del]

text \<open>The \<^verbatim>\<open>while\<close> loop of \<^verbatim>\<open>left_fold\<close>.\<close>

function left_fold_loop ::
  "'d dops \<Rightarrow> Op \<Rightarrow> 'd \<Rightarrow> string \<Rightarrow> 'd \<Rightarrow> nat \<Rightarrow> diag list \<Rightarrow> 'd \<times> diag list" where
  "left_fold_loop ops op old_current line current i ds =
     (if i < length line then
        (case parse_arg_p0 ops (substr line i (parse_number_p0 line i)) 0 of (arg, pos, good, ds1) \<Rightarrow>
           if \<not> good then (old_current, ds @ ds1 @ [WrongArguments])
           else
             (case binary_p0 ops op current arg of (current', good', ds2) \<Rightarrow>
                if \<not> good' then (old_current, ds @ ds1 @ ds2)
                else left_fold_loop ops op old_current line current'
                       (skip_ws line (i + parse_number_p0 line i)) (ds @ ds1 @ ds2)))
      else (current, ds))"
  by pat_completeness auto
termination
  by (relation "measure (\<lambda>(ops, op, old_current, line, current, i, ds). length line - i)")
     (auto simp: token_progress_p0 intro!: diff_less_mono2)

declare left_fold_loop.simps [simp del]

definition left_fold :: "'d dops \<Rightarrow> 'd \<Rightarrow> string \<Rightarrow> ('d \<times> diag list) option" where
  "left_fold ops current line = do {
     (op, pos_binary_op, ds0) \<leftarrow> parse_op_p0 line 1;
     if arity op \<noteq> 2 \<or> op = SET then Some (current, ds0 @ [LeftFoldOnlyBinary])
     else
       (let i = skip_ws line (skip_brackets_p0 line 0) in
        if i = length line then Some (current, ds0 @ [NoArguments])
        else Some (left_fold_loop ops op current line current i ds0))
   }"

text \<open>The \<^verbatim>\<open>else\<close> block of \<^verbatim>\<open>process_line\<close> of part_000: the line without a fold.\<close>

definition plain_p0 :: "'d dops \<Rightarrow> 'd \<Rightarrow> string \<Rightarrow> ('d \<times> diag list) option" where
  "plain_p0 ops current line = do {
     (op, i, ds0) \<leftarrow> parse_op_p0 line 0;
     if arity op = 2 then
       (let old_i = skip_ws line i in
        case parse_arg_p0 ops line old_i of (arg, i', good, ds1) \<Rightarrow>
          if i' = old_i then Some (current, ds0 @ ds1 @ [NoArgumentBinary])
          else if i' < length line then Some (current, ds0 @ ds1)
          else case binary_p0 ops op current arg of (res, good', ds2) \<Rightarrow>
                 Some (res, ds0 @ ds1 @ ds2))
     else if arity op = 1 then
       (if i < length line then Some (current, ds0 @ [UnexpectedSuffix (drop i line)])
        else case unary ops current op of (res, ds1) \<Rightarrow> Some (res, ds0 @ ds1))
     else Some (current, ds0)
   }"

text \<open>\<^verbatim>\<open>process_line\<close> of part_000. \<^verbatim>\<open>line[2]\<close> is read whenever \<^verbatim>\<open>line[0]\<close> is the
  opening bracket, also on the one-character line, where it lies beyond the
  terminator.\<close>

definition process_line_p0 :: "'d dops \<Rightarrow> 'd \<Rightarrow> string \<Rightarrow> ('d \<times> diag list) option" where
  "process_line_p0 ops current line = do {
     fold \<leftarrow> (if char_at line 0 = Some (CHR ''('') then do {
                c2 \<leftarrow> char_at line 2;
                Some (c2 = CHR '')'')
              } else Some False);
     if fold then left_fold ops current line else plain_p0 ops current line
   }"

section \<open>Definitions that follow the specification\<close>

text \<open>The shape the specification gives for a fold line: brackets at positions 0 and 2.\<close>

definition bracket_triple :: "string \<Rightarrow> bool" where
  "bracket_triple line =
     (case line of c0 # c1 # c2 # rest \<Rightarrow> c0 = CHR ''('' \<and> c2 = CHR '')'' | _ \<Rightarrow> False)"



text \<open>The digit characters of a string, which the cap counts, and the characters of a
  literal.\<close>

definition digits_in :: "string \<Rightarrow> nat" where
  "digits_in cs = length (filter is_digit cs)"

definition lit_char :: "char \<Rightarrow> bool" where
  "lit_char c = (is_digit c \<or> c = CHR ''.'')"

text \<open>The value of a literal as the specification words it: the digits before the first
  point folded by multiply-by-ten-and-add from 0, then the digits after it folded with a
  weight that starts at 1 and is divided by ten before each digit.\<close>

definition int_step :: "'d dops \<Rightarrow> 'd \<Rightarrow> char \<Rightarrow> 'd" where
  "int_step ops res c = d_add ops (d_mul ops res (d_lit ops 10)) (d_lit ops (digit_val c))"

definition frac_step :: "'d dops \<Rightarrow> 'd \<times> 'd \<Rightarrow> char \<Rightarrow> 'd \<times> 'd" where
  "frac_step ops rf c =
     (case rf of (res, fraction) \<Rightarrow>
        (d_add ops res (d_mul ops (d_lit ops (digit_val c)) (d_div ops fraction (d_lit ops 10))),
         d_div ops fraction (d_lit ops 10)))"

definition lit_value :: "'d dops \<Rightarrow> string \<Rightarrow> 'd" where
  "lit_value ops cs =
     fst (foldl (frac_step ops)
            (foldl (int_step ops) (d_lit ops 0) (takeWhile is_digit cs), d_lit ops 1)
            (filter is_digit (dropWhile is_digit cs)))"

text \<open>The loop of \<^verbatim>\<open>parse_arg\<close> once more, by recursion on the characters from the cursor
  on: the value, the number of characters consumed and \<^verbatim>\<open>good\<close>. It is the loop with the
  index replaced by the rest of the line (\<open>parse_arg_loop_lit_run\<close> below), and is only
  used to reason about the loop by induction on lists.\<close>

fun lit_run :: "'d dops \<Rightarrow> 'd \<Rightarrow> nat \<Rightarrow> bool \<Rightarrow> 'd \<Rightarrow> string \<Rightarrow> 'd \<times> nat \<times> bool" where
  "lit_run ops res count integer fraction [] = (res, 0, True)"
| "lit_run ops res count integer fraction (c # cs) =
     (if count < max_decimal_digits then
        (if is_digit c then
           (if integer then
              (case lit_run ops (d_add ops (d_mul ops res (d_lit ops 10)) (d_lit ops (digit_val c)))
                      (count + 1) integer fraction cs of
                 (r, n, g) \<Rightarrow> (r, n + 1, g))
            else
              (case lit_run ops
                      (d_add ops res (d_mul ops (d_lit ops (digit_val c)) (d_div ops fraction (d_lit ops 10))))
                      (count + 1) integer (d_div ops fraction (d_lit ops 10)) cs of
                 (r, n, g) \<Rightarrow> (r, n + 1, g)))
         else if c = CHR ''.'' then
           (case lit_run ops res count False fraction cs of (r, n, g) \<Rightarrow> (r, n + 1, g))
         else (res, 0, False))
      else (res, 0, True))"

text \<open>The whitespace-delimited tokens of a string.\<close>

function ws_tokens :: "string \<Rightarrow> string list" where
  "ws_tokens s =
     (let s' = dropWhile isspace s
      in if s' = [] then []
         else takeWhile (\<lambda>c. \<not> isspace c) s' # ws_tokens (dropWhile (\<lambda>c. \<not> isspace c) s'))"
  by pat_completeness auto
termination
proof (relation "measure length")
  show "wf (measure length)" by simp
next
  fix s s' :: string
  assume s': "s' = dropWhile isspace s" and ne: "s' \<noteq> []"
  from ne obtain c cs where c: "s' = c # cs" by (cases s') auto
  from ne s' have "\<not> isspace (hd s')" using hd_dropWhile [of isspace s] by simp
  with c have "\<not> isspace c" by simp
  with c have "length (dropWhile (\<lambda>c. \<not> isspace c) s') \<le> length cs"
    by (simp add: length_dropWhile_le)
  also have "length cs < length s'" using c by simp
  also have "length s' \<le> length s" using s' by (simp add: length_dropWhile_le)
  finally show "(dropWhile (\<lambda>c. \<not> isspace c) s', s) \<in> measure length" by simp
qed

declare ws_tokens.simps [simp del]

text \<open>The single-character binary operators of the specification and what each computes
  from the running value and a right operand: sum, difference, product, quotient,
  floating remainder and power (Set, which no fold admits, gives the right operand).
  \<open>apply_ok\<close> is the condition on the right operand of the quotient and the remainder.
  A literal is accepted when it is made of digits and points with fewer than ten digits
  before its last character; a valid token of a fold is an accepted literal whose value
  the operator accepts.\<close>

definition op_of_char :: "char \<Rightarrow> Op" where
  "op_of_char c =
     (if c = CHR ''+'' then ADD else if c = CHR ''-'' then SUB else if c = CHR ''*'' then MUL
      else if c = CHR ''/'' then DIV else if c = CHR ''%'' then REM else if c = CHR ''^'' then POW
      else ERR)"

definition apply_op :: "'d dops \<Rightarrow> Op \<Rightarrow> 'd \<Rightarrow> 'd \<Rightarrow> 'd" where
  "apply_op ops op left right =
     (case op of
        ADD \<Rightarrow> d_add ops left right
      | SUB \<Rightarrow> d_sub ops left right
      | MUL \<Rightarrow> d_mul ops left right
      | DIV \<Rightarrow> d_div ops left right
      | REM \<Rightarrow> d_fmod ops left right
      | POW \<Rightarrow> d_pow ops left right
      | SET \<Rightarrow> right
      | _ \<Rightarrow> left)"

definition apply_ok :: "'d dops \<Rightarrow> Op \<Rightarrow> 'd \<Rightarrow> bool" where
  "apply_ok ops op right = (if op = DIV \<or> op = REM then d_ne0 ops right else True)"

definition accepted_literal :: "string \<Rightarrow> bool" where
  "accepted_literal tok = (list_all lit_char tok \<and> digits_in (butlast tok) < max_decimal_digits)"

definition valid_token :: "'d dops \<Rightarrow> Op \<Rightarrow> string \<Rightarrow> bool" where
  "valid_token ops op tok = (accepted_literal tok \<and> apply_ok ops op (lit_value ops tok))"

text \<open>The message of a suffix left after a literal.\<close>

definition is_suffix_left :: "diag \<Rightarrow> bool" where
  "is_suffix_left d = (case d of SuffixLeft s \<Rightarrow> True | _ \<Rightarrow> False)"

section \<open>Evaluation on given lines\<close>

text \<open>The defining equations, for the simplifier to run the evaluators on a line that is
  written out.\<close>

lemmas calc_eval =
  process_line_calc_def process_line_p0_def plain_p0_def left_fold_def parse_op_calc_def
  parse_op_p0_def rollback_def delete_brackets_def delete_brackets_loop.simps
  skip_brackets_calc_def skip_brackets_loop.simps skip_brackets_p0.simps is_fold_def
  parse_number_calc_def parse_number_loop.simps parse_number_length_def parse_number_p0_def
  parse_number_length_loop.simps process_numbers.simps left_fold_loop.simps
  parse_arg_calc_def parse_arg_p0_def parse_arg_loop.simps binary_calc_def binary_p0_def
  unary_def skip_ws.simps char_at_def isspace_def is_digit_def digit_val_def substr_def
  max_decimal_digits_def exact_ops_def

lemmas lit_eval = lit_value_def int_step_def frac_step_def lit_char_def is_digit_def digit_val_def
  max_decimal_digits_def exact_ops_def

lemma sqrt9: "sqrt 9 = (3::real)"
  using real_sqrt_abs [of 3] by simp

section \<open>Recognising the operation\<close>

lemma parse_op_neg: "parse_op_p0 (CHR ''_'' # suffix) 0 = Some (NEG, 1, [])"
  by (simp add: parse_op_p0_def char_at_def is_digit_def)

lemma parse_op_sqrt: "parse_op_p0 (''SQRT'' @ suffix) 0 = Some (SQRT, 4, [])"
  by (simp add: parse_op_p0_def char_at_def is_digit_def)

lemma parse_op_digit: "is_digit c \<Longrightarrow> parse_op_p0 (c # rest) 0 = Some (SET, 0, [])"
  by (simp add: parse_op_p0_def char_at_def)


lemma delete_brackets_no: "c \<noteq> CHR ''('' \<Longrightarrow> delete_brackets (c # rest) = c # rest"
  by (simp add: delete_brackets_def char_at_def)

lemma is_digit_not_bracket: "is_digit c \<Longrightarrow> c \<noteq> CHR ''(''"
  by (auto simp: is_digit_def)

section \<open>Unary lines\<close>

text \<open>
  \<^bold>\<open>Claim C7\<close>. The line \<^verbatim>\<open>SQRT\<close> returns the square root of the accumulator when the
  accumulator is greater than zero, with no message, and otherwise the accumulator as it
  was, with the message of a bad argument. This holds in both files and for any
  arithmetic on doubles; with exact arithmetic \<^verbatim>\<open>SQRT\<close> yields 3 on 9 and \<open>-9\<close> on
  \<open>-9\<close>.
\<close>

theorem sqrt_line:
  "process_line_calc ops current ''SQRT'' =
     Some (if d_gt0 ops current then (d_sqrt ops current, []) else (current, [BadSqrtArg]))
   \<and> process_line_p0 ops current ''SQRT'' =
     Some (if d_gt0 ops current then (d_sqrt ops current, []) else (current, [BadSqrtArg]))
   \<and> process_line_calc exact_ops x ''SQRT'' =
     Some (if x > 0 then (sqrt x, []) else (x, [BadSqrtArg]))
   \<and> process_line_p0 exact_ops x ''SQRT'' =
     Some (if x > 0 then (sqrt x, []) else (x, [BadSqrtArg]))
   \<and> process_line_calc exact_ops 9 ''SQRT'' = Some (3, [])
   \<and> process_line_p0 exact_ops 9 ''SQRT'' = Some (3, [])
   \<and> process_line_calc exact_ops (- 9) ''SQRT'' = Some (- 9, [BadSqrtArg])
   \<and> process_line_p0 exact_ops (- 9) ''SQRT'' = Some (- 9, [BadSqrtArg])"
  by (simp add: calc_eval sqrt9)

theorem sqrt_line_witness:
  "process_line_calc exact_ops 9 ''SQRT'' = Some (3, [])
   \<and> process_line_p0 exact_ops 0 ''SQRT'' = Some (0, [BadSqrtArg])"
  using sqrt_line [of exact_ops 9 0] sqrt_line [of exact_ops 0 0]
  by (simp add: exact_ops_def sqrt9)

text \<open>
  \<^bold>\<open>Claim C8\<close>, as amended. The code trims nothing: a unary line is valid exactly when
  no character at all follows the operator. Any suffix, also one of whitespace only,
  leaves the accumulator as it was, with the message of an unexpected suffix. On the line
  \<^verbatim>\<open>_\<close> the result is the negation of the accumulator, whatever the accumulator, and on
  the line \<^verbatim>\<open>SQRT\<close> it is what \<^verbatim>\<open>unary\<close> returns.
\<close>

theorem unary_line:
  "process_line_calc ops current (''_'' @ suffix) =
     Some (if suffix = [] then (d_neg ops current, []) else (current, [UnexpectedSuffix suffix]))
   \<and> process_line_p0 ops current (''_'' @ suffix) =
     Some (if suffix = [] then (d_neg ops current, []) else (current, [UnexpectedSuffix suffix]))
   \<and> process_line_calc ops current (''SQRT'' @ suffix) =
     Some (if suffix = [] then unary ops current SQRT else (current, [UnexpectedSuffix suffix]))
   \<and> process_line_p0 ops current (''SQRT'' @ suffix) =
     Some (if suffix = [] then unary ops current SQRT else (current, [UnexpectedSuffix suffix]))"
  using parse_op_neg [of suffix] parse_op_sqrt [of suffix]
  by (simp add: process_line_calc_def process_line_p0_def plain_p0_def parse_op_calc_def
        delete_brackets_no char_at_def unary_def)

theorem unary_line_witness:
  "process_line_calc exact_ops 4 ''_'' = Some (- 4, [])
   \<and> process_line_p0 exact_ops (- 4) ''_'' = Some (4, [])
   \<and> process_line_calc exact_ops 4 ''_x'' = Some (4, [UnexpectedSuffix ''x''])
   \<and> process_line_p0 exact_ops 4 ''SQRT 1'' = Some (4, [UnexpectedSuffix '' 1''])"
  using unary_line [of exact_ops 4 "[]"] unary_line [of exact_ops "- 4" "[]"]
    unary_line [of exact_ops 4 "''x''"] unary_line [of exact_ops 4 "'' 1''"]
  by (simp add: exact_ops_def)

text \<open>The claim as stated fails: after \<^verbatim>\<open>_\<close> a single space is whitespace only, and the
  accumulator 4 comes back as 4, not negated.\<close>

theorem unary_whitespace_counterexample:
  "process_line_calc exact_ops 4 ''_ '' = Some (4, [UnexpectedSuffix '' ''])
   \<and> process_line_p0 exact_ops 4 ''_ '' = Some (4, [UnexpectedSuffix '' ''])
   \<and> process_line_calc exact_ops 4 ''_'' = Some (- 4, [])
   \<and> process_line_p0 exact_ops 4 ''_'' = Some (- 4, [])"
  by (simp add: calc_eval)

section \<open>The loop of the literal parser, by induction on the characters\<close>

lemma parse_arg_loop_bad [simp]:
  "parse_arg_loop ops line res i count integer fraction False = (res, i, False)"
  by (subst parse_arg_loop.simps) simp

lemma parse_arg_loop_lit_run:
  "i \<le> length line \<Longrightarrow>
   parse_arg_loop ops line res i count integer fraction good =
     (if good then
        (case lit_run ops res count integer fraction (drop i line) of (r, n, g) \<Rightarrow> (r, i + n, g))
      else (res, i, False))"
proof (induction ops line res i count integer fraction good rule: parse_arg_loop.induct)
  case (1 ops line res i count integer fraction good)
  show ?case
  proof (cases "good \<and> i < length line \<and> count < max_decimal_digits")
    case False
    then show ?thesis
      using "1.prems"
      by (subst parse_arg_loop.simps) (cases "drop i line", auto)
  next
    case True
    then have d: "drop i line = line ! i # drop (i + 1) line"
      by (simp add: Cons_nth_drop_Suc)
    from True have le: "i + 1 \<le> length line" by simp
    consider (di) "is_digit (line ! i)" "integer"
      | (df) "is_digit (line ! i)" "\<not> integer"
      | (pt) "\<not> is_digit (line ! i)" "line ! i = CHR ''.''"
      | (bad) "\<not> is_digit (line ! i)" "line ! i \<noteq> CHR ''.''"
      by blast
    then show ?thesis
    proof cases
      case di
      show ?thesis
        using True di "1.IH"(1) [OF True di le]
        by (subst parse_arg_loop.simps) (simp add: d split: prod.splits)
    next
      case df
      show ?thesis
        using True df "1.IH"(2) [OF True df le]
        by (subst parse_arg_loop.simps) (simp add: d split: prod.splits)
    next
      case pt
      show ?thesis
        using True pt "1.IH"(3) [OF True pt le]
        by (subst parse_arg_loop.simps) (simp add: d split: prod.splits)
    next
      case bad
      show ?thesis
        using True bad
        by (subst parse_arg_loop.simps) (simp add: d split: prod.splits)
    qed
  qed
qed


lemma digits_in_simps [simp]:
  "digits_in [] = 0"
  "digits_in (c # cs) = (if is_digit c then 1 + digits_in cs else digits_in cs)"
  by (simp_all add: digits_in_def)

lemma not_digit_dot [simp]: "\<not> is_digit (CHR ''.'')"
  by (simp add: is_digit_def)

lemma lit_run_len: "lit_run ops res count integer fraction cs = (r, n, g) \<Longrightarrow> n \<le> length cs"
  by (induction cs arbitrary: res count integer fraction r n g)
     (auto split: if_splits prod.splits)

lemma lit_run_chars:
  "lit_run ops res count integer fraction cs = (r, n, g) \<Longrightarrow> list_all lit_char (take n cs)"
  by (induction cs arbitrary: res count integer fraction r n g)
     (auto simp: lit_char_def split: if_splits prod.splits)


lemma lit_run_stop:
  "lit_run ops res count integer fraction cs = (r, n, g) \<Longrightarrow> g \<Longrightarrow> n < length cs
   \<Longrightarrow> max_decimal_digits \<le> count + digits_in (take n cs)"
proof (induction cs arbitrary: res count integer fraction r n g)
  case Nil
  then show ?case by simp
next
  case (Cons c cs)
  show ?case
  proof (cases "count < max_decimal_digits \<and> lit_char c")
    case False
    with Cons.prems show ?thesis by (auto simp: lit_char_def split: if_splits)
  next
    case True
    then obtain res' count' integer' fraction' n' where
      run: "lit_run ops res' count' integer' fraction' cs = (r, n', g)" and n: "n = n' + 1"
      and cnt: "count' = (if is_digit c then count + 1 else count)"
      using Cons.prems(1) by (auto simp: lit_char_def split: if_splits prod.splits)
    from n Cons.prems(3) have "n' < length cs" by simp
    from Cons.IH [OF run Cons.prems(2) this] show ?thesis
      using n cnt by (auto split: if_splits)
  qed
qed

lemma lit_run_bad:
  "lit_run ops res count integer fraction cs = (r, n, g) \<Longrightarrow> \<not> g
   \<Longrightarrow> n < length cs \<and> \<not> lit_char (cs ! n) \<and> count + digits_in (take n cs) < max_decimal_digits"
proof (induction cs arbitrary: res count integer fraction r n g)
  case Nil
  then show ?case by simp
next
  case (Cons c cs)
  show ?case
  proof (cases "count < max_decimal_digits \<and> lit_char c")
    case False
    with Cons.prems show ?thesis by (auto simp: lit_char_def split: if_splits)
  next
    case True
    then obtain res' count' integer' fraction' n' where
      run: "lit_run ops res' count' integer' fraction' cs = (r, n', g)" and n: "n = n' + 1"
      and cnt: "count' = (if is_digit c then count + 1 else count)"
      using Cons.prems(1) by (auto simp: lit_char_def split: if_splits prod.splits)
    from Cons.IH [OF run Cons.prems(2)] show ?thesis
      using n cnt by (auto split: if_splits)
  qed
qed

lemma lit_run_accept:
  "list_all lit_char cs \<Longrightarrow> count + digits_in (butlast cs) < max_decimal_digits
   \<Longrightarrow> \<exists>r. lit_run ops res count integer fraction cs = (r, length cs, True)"
proof (induction cs arbitrary: res count integer fraction)
  case Nil
  then show ?case by simp
next
  case (Cons c cs)
  show ?case
  proof (cases "cs = []")
    case True
    with Cons.prems show ?thesis by (auto simp: lit_char_def)
  next
    case False
    with Cons.prems have b: "(if is_digit c then count + 1 else count) + digits_in (butlast cs) < max_decimal_digits"
      by (auto split: if_splits)
    from Cons.prems have a: "list_all lit_char cs" and c: "lit_char c" by simp_all
    from b have lt: "count < max_decimal_digits" by (auto split: if_splits)
    show ?thesis
    proof (cases "is_digit c")
      case True
      with b have b': "(count + 1) + digits_in (butlast cs) < max_decimal_digits" by simp
      show ?thesis
        using True lt Cons.IH [OF a b', of _ integer]
        by (cases integer) (auto split: prod.splits, (metis prod.inject)+)
    next
      case F: False
      with b have b': "count + digits_in (butlast cs) < max_decimal_digits" by simp
      from F c have "c = CHR ''.''" by (simp add: lit_char_def)
      then show ?thesis
        using F lt Cons.IH [OF a b', of res False fraction]
        by auto
    qed
  qed
qed

lemma lit_run_accepted:
  "lit_run ops res count integer fraction cs = (r, length cs, True) \<Longrightarrow> cs \<noteq> []
   \<Longrightarrow> list_all lit_char cs \<and> count + digits_in (butlast cs) < max_decimal_digits"
proof (induction cs arbitrary: res count integer fraction r)
  case Nil
  then show ?case by simp
next
  case (Cons c cs)
  from Cons.prems(1) have lt: "count < max_decimal_digits" and c: "lit_char c"
    by (auto simp: lit_char_def split: if_splits prod.splits)
  show ?case
  proof (cases "cs = []")
    case True
    with lt c show ?thesis by simp
  next
    case False
    from lt c obtain res' count' integer' fraction' where
      run: "lit_run ops res' count' integer' fraction' cs = (r, length cs, True)"
      and cnt: "count' = (if is_digit c then count + 1 else count)"
      using Cons.prems(1) by (auto simp: lit_char_def split: if_splits prod.splits)
    from Cons.IH [OF run False] show ?thesis
      using c cnt False by (auto split: if_splits)
  qed
qed


lemma lit_run_value_frac:
  "lit_run ops res count False fraction cs = (r, n, g)
   \<Longrightarrow> r = fst (foldl (frac_step ops) (res, fraction) (filter is_digit (take n cs)))"
proof (induction cs arbitrary: res count fraction r n g)
  case Nil
  then show ?case by simp
next
  case (Cons c cs)
  show ?case
  proof (cases "count < max_decimal_digits \<and> lit_char c")
    case False
    with Cons.prems show ?thesis by (auto simp: lit_char_def split: if_splits)
  next
    case True
    show ?thesis
    proof (cases "is_digit c")
      case d: True
      with True Cons.prems obtain n' where
        run: "lit_run ops (fst (frac_step ops (res, fraction) c)) (count + 1) False
                (snd (frac_step ops (res, fraction) c)) cs = (r, n', g)" and n: "n = n' + 1"
        by (auto simp: frac_step_def split: prod.splits)
      from Cons.IH [OF run] show ?thesis using n d by simp
    next
      case d: False
      with True have "c = CHR ''.''" by (simp add: lit_char_def)
      with True d Cons.prems obtain n' where
        run: "lit_run ops res count False fraction cs = (r, n', g)" and n: "n = n' + 1"
        by (auto split: prod.splits)
      from Cons.IH [OF run] show ?thesis using n d by simp
    qed
  qed
qed

lemma lit_run_value_int:
  "lit_run ops res count True fraction cs = (r, n, g)
   \<Longrightarrow> r = fst (foldl (frac_step ops)
                (foldl (int_step ops) res (takeWhile is_digit (take n cs)), fraction)
                (filter is_digit (dropWhile is_digit (take n cs))))"
proof (induction cs arbitrary: res count r n g)
  case Nil
  then show ?case by simp
next
  case (Cons c cs)
  show ?case
  proof (cases "count < max_decimal_digits \<and> lit_char c")
    case False
    with Cons.prems show ?thesis by (auto simp: lit_char_def split: if_splits)
  next
    case True
    show ?thesis
    proof (cases "is_digit c")
      case d: True
      with True Cons.prems obtain n' where
        run: "lit_run ops (int_step ops res c) (count + 1) True fraction cs = (r, n', g)"
        and n: "n = n' + 1"
        by (auto simp: int_step_def split: prod.splits)
      from Cons.IH [OF run] show ?thesis using n d by simp
    next
      case d: False
      with True have "c = CHR ''.''" by (simp add: lit_char_def)
      with True d Cons.prems obtain n' where
        run: "lit_run ops res count False fraction cs = (r, n', g)" and n: "n = n' + 1"
        by (auto split: prod.splits)
      from lit_run_value_frac [OF run] show ?thesis using n d by simp
    qed
  qed
qed


section \<open>Detecting a fold\<close>

lemma process_line_p0_triple:
  "bracket_triple line \<Longrightarrow> process_line_p0 ops current line = left_fold ops current line"
  by (auto simp: bracket_triple_def process_line_p0_def char_at_def split: list.splits)

lemma process_line_p0_plain:
  "\<not> bracket_triple line \<Longrightarrow> line \<noteq> ''(''
   \<Longrightarrow> process_line_p0 ops current line = plain_p0 ops current line"
  by (auto simp: bracket_triple_def process_line_p0_def char_at_def split: list.splits)

lemma process_line_p0_undefined: "process_line_p0 ops current ''('' = None"
  by (simp add: process_line_p0_def char_at_def)


lemma is_fold_shape:
  "is_fold line = (case line of [] \<Rightarrow> False | c # rest \<Rightarrow> c = CHR ''('' \<and> CHR '')'' \<in> set rest)"
  by (auto simp: is_fold_def char_at_def split: list.splits)





section \<open>The grammar of literals and the digit cap\<close>

lemma lit_char_not_space: "lit_char c \<Longrightarrow> \<not> isspace c"
  by (auto simp: lit_char_def is_digit_def isspace_def)



text \<open>\<^verbatim>\<open>parse_arg\<close> of either file from the cursor 0, through \<open>lit_run\<close>.\<close>

lemma parse_arg_calc_lit_run:
  "parse_arg_calc ops tok 0 True =
     (case lit_run ops (d_lit ops 0) 0 True (d_lit ops 1) tok of (r, n, g) \<Rightarrow>
        if \<not> g then (r, n, False, [ArgParsingError n (drop n tok)])
        else if n < length tok then (r, n, False, [SuffixLeft (drop n tok)])
        else (r, n, True, []))"
  by (simp add: parse_arg_calc_def parse_arg_loop_lit_run split: prod.splits)

lemma parse_arg_p0_lit_run:
  "parse_arg_p0 ops tok 0 =
     (case lit_run ops (d_lit ops 0) 0 True (d_lit ops 1) tok of (r, n, g) \<Rightarrow>
        if \<not> g then (r, n, False, [ArgParsingError n (drop n tok)])
        else if n < length tok then (r, n, True, [SuffixLeft (drop n tok)])
        else (r, n, True, []))"
  by (simp add: parse_arg_p0_def parse_arg_loop_lit_run split: prod.splits)






lemma lit_run_full_value:
  assumes "list_all lit_char tok" "digits_in (butlast tok) < max_decimal_digits"
  shows "lit_run ops (d_lit ops 0) 0 True (d_lit ops 1) tok = (lit_value ops tok, length tok, True)"
proof -
  from lit_run_accept [OF assms(1), of 0 ops "d_lit ops 0" True "d_lit ops 1"] assms(2)
  obtain r where run: "lit_run ops (d_lit ops 0) 0 True (d_lit ops 1) tok = (r, length tok, True)"
    by auto
  from lit_run_value_int [OF run] have "r = lit_value ops tok"
    by (simp add: lit_value_def)
  with run show ?thesis by simp
qed


lemma lit_run_accept_iff:
  "(case lit_run ops (d_lit ops 0) 0 True (d_lit ops 1) tok of (r, n, g) \<Rightarrow> g \<and> n = length tok)
     = (list_all lit_char tok \<and> digits_in (butlast tok) < max_decimal_digits)"
proof (cases "tok = []")
  case True
  then show ?thesis by (simp add: max_decimal_digits_def)
next
  case False
  show ?thesis
  proof
    assume "case lit_run ops (d_lit ops 0) 0 True (d_lit ops 1) tok of (r, n, g) \<Rightarrow> g \<and> n = length tok"
    then obtain r where "lit_run ops (d_lit ops 0) 0 True (d_lit ops 1) tok = (r, length tok, True)"
      by (auto split: prod.splits)
    from lit_run_accepted [OF this False]
    show "list_all lit_char tok \<and> digits_in (butlast tok) < max_decimal_digits" by simp
  next
    assume "list_all lit_char tok \<and> digits_in (butlast tok) < max_decimal_digits"
    then have "lit_run ops (d_lit ops 0) 0 True (d_lit ops 1) tok = (lit_value ops tok, length tok, True)"
      using lit_run_full_value by blast
    then show "case lit_run ops (d_lit ops 0) 0 True (d_lit ops 1) tok of (r, n, g) \<Rightarrow> g \<and> n = length tok"
      by simp
  qed
qed





section \<open>Binary lines with one argument\<close>

lemma parse_number_length_loop_nonspace:
  "\<forall>k. i \<le> k \<and> k < length line \<longrightarrow> \<not> isspace (line ! k) \<Longrightarrow> i \<le> length line
   \<Longrightarrow> parse_number_length_loop line i count = count + (length line - i)"
proof (induction line i count rule: parse_number_length_loop.induct)
  case (1 line i count)
  show ?case
  proof (cases "i < length line")
    case True
    with "1.prems" have ns: "\<not> isspace (line ! i)" by simp
    from "1.IH" [OF conjI [OF True ns]] "1.prems" True
    have "parse_number_length_loop line (i + 1) (count + 1) = (count + 1) + (length line - (i + 1))"
      by simp
    with True ns show ?thesis
      by (subst parse_number_length_loop.simps) simp
  next
    case False
    then show ?thesis by (subst parse_number_length_loop.simps) simp
  qed
qed

lemma parse_number_loop_end: "length line \<le> i \<Longrightarrow> parse_number_loop line i numbers = numbers"
  by (subst parse_number_loop.simps) simp

lemma parse_number_loop_single:
  assumes "i < length line" "skip_ws line i < length line"
    and "\<forall>k. skip_ws line i \<le> k \<and> k < length line \<longrightarrow> \<not> isspace (line ! k)"
  shows "parse_number_loop line i numbers = numbers @ [drop (skip_ws line i) line]"
proof -
  have n: "parse_number_length line (skip_ws line i) = length line - skip_ws line i"
    using parse_number_length_loop_nonspace [OF assms(3), of 0] assms(2)
    by (simp add: parse_number_length_def)
  show ?thesis
    using assms(1,2) n
    by (subst parse_number_loop.simps) (simp add: Let_def parse_number_loop_end substr_def)
qed

lemma list_all_drop_nth:
  "list_all P (drop i xs) \<Longrightarrow> i \<le> k \<Longrightarrow> k < length xs \<Longrightarrow> P (xs ! k)"
proof -
  assume a: "list_all P (drop i xs)" and b: "i \<le> k" and c: "k < length xs"
  from b c have "drop i xs ! (k - i) = xs ! k" by simp
  moreover from b c have "k - i < length (drop i xs)" by simp
  ultimately show ?thesis using a by (metis list_all_length)
qed

lemma parse_arg_loop_full_chars:
  assumes run: "parse_arg_loop ops line res i count integer fraction True = (arg, length line, True)"
    and i: "i \<le> length line"
  shows "list_all lit_char (drop i line)"
proof -
  from run i obtain n where
    l: "lit_run ops res count integer fraction (drop i line) = (arg, n, True)" and n: "i + n = length line"
    by (auto simp: parse_arg_loop_lit_run split: prod.splits)
  from lit_run_chars [OF l] n show ?thesis by simp
qed

lemma binary_calc_fail:
  "binary_calc ops op left right True = (res, False, ds) \<Longrightarrow> res = left"
  by (cases op) (auto simp: binary_calc_def split: if_splits)

lemma is_fold_no: "char_at line 0 \<noteq> Some (CHR ''('') \<Longrightarrow> \<not> is_fold line"
  by (simp add: is_fold_def)

lemma delete_brackets_id: "char_at line 0 \<noteq> Some (CHR ''('') \<Longrightarrow> delete_brackets line = line"
  by (simp add: delete_brackets_def)

lemma plain_binary_line:
  assumes op: "parse_op_p0 line 0 = Some (op, i, [])" "arity op = 2"
    and nb: "char_at line 0 \<noteq> Some (CHR ''('')"
    and i: "i \<le> 1" "skip_ws line i < length line"
    and run: "parse_arg_loop ops line (d_lit ops 0) (skip_ws line i) 0 True (d_lit ops 1) True
                = (arg, length line, True)"
  shows "process_line_calc ops current line =
           Some (case binary_calc ops op current arg True of (res, good, ds) \<Rightarrow> (res, ds))"
    and "process_line_p0 ops current line =
           Some (case binary_calc ops op current arg True of (res, good, ds) \<Rightarrow> (res, ds))"
proof -
  let ?i1 = "skip_ws line i"
  have pa: "parse_arg_calc ops line ?i1 True = (arg, length line, True, [])"
    and pp: "parse_arg_p0 ops line ?i1 = (arg, length line, True, [])"
    unfolding parse_arg_calc_def parse_arg_p0_def run by simp_all
  have "list_all lit_char (drop ?i1 line)"
    using parse_arg_loop_full_chars [OF run] i(2) by simp
  then have ns: "\<forall>k. ?i1 \<le> k \<and> k < length line \<longrightarrow> \<not> isspace (line ! k)"
    using list_all_drop_nth [of lit_char ?i1 line] lit_char_not_space by blast
  have il: "i < length line" using skip_ws_ge [of i line] i(2) by simp
  have pn: "parse_number_calc line i = ([drop ?i1 line], [])"
    using parse_number_loop_single [OF il i(2) ns, of "[]"] by (simp add: parse_number_calc_def)
  obtain res good ds where b: "binary_calc ops op current arg True = (res, good, ds)"
    by (cases "binary_calc ops op current arg True") auto
  have ne: "length line \<noteq> ?i1" using i(2) by simp
  show "process_line_calc ops current line =
           Some (case binary_calc ops op current arg True of (res, good, ds) \<Rightarrow> (res, ds))"
    using op nb pn pa b ne
    by (auto simp: process_line_calc_def parse_op_calc_def delete_brackets_id skip_brackets_calc_def
          is_fold_no process_numbers.simps Let_def dest: binary_calc_fail)
  show "process_line_p0 ops current line =
           Some (case binary_calc ops op current arg True of (res, good, ds) \<Rightarrow> (res, ds))"
    using op nb pp b ne
    by (auto simp: process_line_p0_def plain_p0_def Let_def binary_p0_def)
qed


lemma skip_ws_prefix:
  "list_all isspace ws \<Longrightarrow> tok = [] \<or> \<not> isspace (hd tok)
   \<Longrightarrow> skip_ws (pre @ ws @ tok) (length pre) = length pre + length ws"
proof (induction ws arbitrary: pre)
  case Nil
  then show ?case
    by (cases tok) (auto simp: skip_ws_nonspace nth_append)
next
  case (Cons w ws)
  from Cons.prems have w: "isspace w" and a: "list_all isspace ws" by simp_all
  from Cons.IH [OF a Cons.prems(2), of "pre @ [w]"]
  have "skip_ws (pre @ w # ws @ tok) (length pre + 1) = length pre + 1 + length ws" by simp
  with w show ?case
    by (subst skip_ws.simps) (simp add: nth_append)
qed

lemma lit_char_hd: "list_all lit_char tok \<Longrightarrow> tok = [] \<or> \<not> isspace (hd tok)"
  by (cases tok) (auto simp: lit_char_not_space)

lemma binary_line_syntax:
  assumes op: "parse_op_p0 (c # ws @ tok) 0 = Some (op, 1, [])" "arity op = 2"
    and c: "c \<noteq> CHR ''(''"
    and ws: "list_all isspace ws"
    and tok: "tok \<noteq> []" "list_all lit_char tok" "digits_in (butlast tok) < max_decimal_digits"
  shows "process_line_calc ops current (c # ws @ tok) =
           Some (case binary_calc ops op current (lit_value ops tok) True of (res, good, ds) \<Rightarrow> (res, ds))"
    and "process_line_p0 ops current (c # ws @ tok) =
           Some (case binary_calc ops op current (lit_value ops tok) True of (res, good, ds) \<Rightarrow> (res, ds))"
proof -
  let ?line = "c # ws @ tok"
  have skS: "skip_ws ?line (Suc 0) = Suc (length ws)"
    using skip_ws_prefix [OF ws lit_char_hd [OF tok(2)], of "[c]"] by simp
  then have sk: "skip_ws ?line 1 = 1 + length ws" by simp
  have lt: "skip_ws ?line 1 < length ?line" using tok(1) skS by simp
  have nb: "char_at ?line 0 \<noteq> Some (CHR ''('')" using c by (simp add: char_at_def)
  have d: "drop (1 + length ws) ?line = tok" by simp
  have run: "parse_arg_loop ops ?line (d_lit ops 0) (skip_ws ?line 1) 0 True (d_lit ops 1) True
               = (lit_value ops tok, length ?line, True)"
    unfolding sk
    by (subst parse_arg_loop_lit_run) (simp_all only: d lit_run_full_value [OF tok(2,3)], simp_all)
  show "process_line_calc ops current ?line =
           Some (case binary_calc ops op current (lit_value ops tok) True of (res, good, ds) \<Rightarrow> (res, ds))"
    by (rule plain_binary_line(1) [OF op nb _ lt run]) simp
  show "process_line_p0 ops current ?line =
           Some (case binary_calc ops op current (lit_value ops tok) True of (res, good, ds) \<Rightarrow> (res, ds))"
    by (rule plain_binary_line(2) [OF op nb _ lt run]) simp
qed

lemma parse_op_div: "parse_op_p0 (CHR ''/'' # rest) 0 = Some (DIV, 1, [])"
  by (simp add: parse_op_p0_def char_at_def is_digit_def)

lemma parse_op_rem: "parse_op_p0 (CHR ''%'' # rest) 0 = Some (REM, 1, [])"
  by (simp add: parse_op_p0_def char_at_def is_digit_def)

text \<open>The remainder of exact arithmetic has the sign of the dividend.\<close>

lemma fmod_real_sign:
  assumes "y \<noteq> 0"
  shows "(0 \<le> x \<longrightarrow> 0 \<le> fmod_real x y) \<and> (x \<le> 0 \<longrightarrow> fmod_real x y \<le> 0)"
proof -
  let ?q = "x / y"
  have xq: "x = y * ?q" using assms by simp
  show ?thesis
  proof (cases "0 \<le> ?q")
    case True
    have fl: "of_int \<lfloor>?q\<rfloor> \<le> ?q" "0 \<le> (of_int \<lfloor>?q\<rfloor> :: real)" using True by simp_all
    have e: "fmod_real x y = y * (?q - of_int \<lfloor>?q\<rfloor>)"
      using True xq by (simp add: fmod_real_def algebra_simps)
    have d: "0 \<le> ?q - of_int \<lfloor>?q\<rfloor>" using fl by simp
    show ?thesis
    proof (cases "0 < y")
      case y: True
      with True have "0 \<le> x" by (simp add: zero_le_divide_iff)
      moreover have "0 \<le> fmod_real x y" unfolding e using y d by (simp add: zero_le_mult_iff)
      moreover have "x \<le> 0 \<longrightarrow> fmod_real x y \<le> 0"
      proof
        assume "x \<le> 0"
        with \<open>0 \<le> x\<close> have "x = 0" by simp
        then show "fmod_real x y \<le> 0" by (simp add: fmod_real_def)
      qed
      ultimately show ?thesis by simp
    next
      case y: False
      with assms have y': "y < 0" by simp
      with True have "x \<le> 0" by (simp add: zero_le_divide_iff)
      moreover have "fmod_real x y \<le> 0" unfolding e using y' d by (simp add: mult_le_0_iff)
      moreover have "0 \<le> x \<longrightarrow> 0 \<le> fmod_real x y"
      proof
        assume "0 \<le> x"
        with \<open>x \<le> 0\<close> have "x = 0" by simp
        then show "0 \<le> fmod_real x y" by (simp add: fmod_real_def)
      qed
      ultimately show ?thesis by simp
    qed
  next
    case False
    then have neg: "?q < 0" by simp
    have cl: "?q \<le> of_int \<lceil>?q\<rceil>" by simp
    have e: "fmod_real x y = y * (?q - of_int \<lceil>?q\<rceil>)"
      using False xq by (simp add: fmod_real_def algebra_simps)
    have d: "?q - of_int \<lceil>?q\<rceil> \<le> 0" using cl by simp
    show ?thesis
    proof (cases "0 < y")
      case y: True
      with neg have "x < 0" by (simp add: divide_less_0_iff)
      moreover have "fmod_real x y \<le> 0" unfolding e using y d by (simp add: mult_le_0_iff)
      ultimately show ?thesis by simp
    next
      case y: False
      with assms have y': "y < 0" by simp
      with neg have "0 < x" by (simp add: divide_less_0_iff)
      moreover have "0 \<le> fmod_real x y" unfolding e using y' d by (simp add: zero_le_mult_iff)
      ultimately show ?thesis by simp
    qed
  qed
qed


text \<open>
  \<^bold>\<open>Claim C6\<close>. On a line made of \<^verbatim>\<open>/\<close> or \<^verbatim>\<open>%\<close>, whitespace and one literal, in
  both files: when the value of the literal is zero (\<^verbatim>\<open>right != 0\<close> fails) the
  accumulator comes back as it was, with the message of a bad right argument; otherwise
  the result is the quotient \<^verbatim>\<open>left / right\<close>, respectively \<^verbatim>\<open>std::fmod(left, right)\<close>,
  with no message. With exact arithmetic \<^verbatim>\<open>/ 0\<close> and \<^verbatim>\<open>% 0\<close> return any accumulator as
  it was, \<^verbatim>\<open>+ 3\<close> takes 2 to 5, and the remainder has the sign of the dividend.
\<close>

theorem divide_remainder:
  "(list_all isspace ws \<and> tok \<noteq> [] \<and> list_all lit_char tok
      \<and> digits_in (butlast tok) < max_decimal_digits \<longrightarrow>
      process_line_calc ops current (CHR ''/'' # ws @ tok) =
        Some (if d_ne0 ops (lit_value ops tok) then (d_div ops current (lit_value ops tok), [])
              else (current, [BadDivArg]))
      \<and> process_line_p0 ops current (CHR ''/'' # ws @ tok) =
        Some (if d_ne0 ops (lit_value ops tok) then (d_div ops current (lit_value ops tok), [])
              else (current, [BadDivArg]))
      \<and> process_line_calc ops current (CHR ''%'' # ws @ tok) =
        Some (if d_ne0 ops (lit_value ops tok) then (d_fmod ops current (lit_value ops tok), [])
              else (current, [BadRemArg]))
      \<and> process_line_p0 ops current (CHR ''%'' # ws @ tok) =
        Some (if d_ne0 ops (lit_value ops tok) then (d_fmod ops current (lit_value ops tok), [])
              else (current, [BadRemArg])))
   \<and> process_line_calc exact_ops x ''/ 0'' = Some (x, [BadDivArg])
   \<and> process_line_p0 exact_ops x ''/ 0'' = Some (x, [BadDivArg])
   \<and> process_line_calc exact_ops x ''% 0'' = Some (x, [BadRemArg])
   \<and> process_line_p0 exact_ops x ''% 0'' = Some (x, [BadRemArg])
   \<and> process_line_calc exact_ops 2 ''+ 3'' = Some (5, [])
   \<and> process_line_p0 exact_ops 2 ''+ 3'' = Some (5, [])
   \<and> (y \<noteq> 0 \<longrightarrow> (0 \<le> x \<longrightarrow> 0 \<le> d_fmod exact_ops x y) \<and> (x \<le> 0 \<longrightarrow> d_fmod exact_ops x y \<le> 0))"
proof -
  have sg: "y \<noteq> 0 \<longrightarrow> (0 \<le> x \<longrightarrow> 0 \<le> d_fmod exact_ops x y) \<and> (x \<le> 0 \<longrightarrow> d_fmod exact_ops x y \<le> 0)"
    using fmod_real_sign [of y x] by (simp add: exact_ops_def)
  have ex: "process_line_calc exact_ops x ''/ 0'' = Some (x, [BadDivArg])"
    "process_line_p0 exact_ops x ''/ 0'' = Some (x, [BadDivArg])"
    "process_line_calc exact_ops x ''% 0'' = Some (x, [BadRemArg])"
    "process_line_p0 exact_ops x ''% 0'' = Some (x, [BadRemArg])"
    "process_line_calc exact_ops 2 ''+ 3'' = Some (5, [])"
    "process_line_p0 exact_ops 2 ''+ 3'' = Some (5, [])"
    by (simp_all add: calc_eval)
  have gen: "list_all isspace ws \<and> tok \<noteq> [] \<and> list_all lit_char tok
      \<and> digits_in (butlast tok) < max_decimal_digits \<longrightarrow>
      process_line_calc ops current (CHR ''/'' # ws @ tok) =
        Some (if d_ne0 ops (lit_value ops tok) then (d_div ops current (lit_value ops tok), [])
              else (current, [BadDivArg]))
      \<and> process_line_p0 ops current (CHR ''/'' # ws @ tok) =
        Some (if d_ne0 ops (lit_value ops tok) then (d_div ops current (lit_value ops tok), [])
              else (current, [BadDivArg]))
      \<and> process_line_calc ops current (CHR ''%'' # ws @ tok) =
        Some (if d_ne0 ops (lit_value ops tok) then (d_fmod ops current (lit_value ops tok), [])
              else (current, [BadRemArg]))
      \<and> process_line_p0 ops current (CHR ''%'' # ws @ tok) =
        Some (if d_ne0 ops (lit_value ops tok) then (d_fmod ops current (lit_value ops tok), [])
              else (current, [BadRemArg]))"
  proof
    assume a: "list_all isspace ws \<and> tok \<noteq> [] \<and> list_all lit_char tok
      \<and> digits_in (butlast tok) < max_decimal_digits"
    then have ws: "list_all isspace ws" and t1: "tok \<noteq> []" and t2: "list_all lit_char tok"
      and t3: "digits_in (butlast tok) < max_decimal_digits" by simp_all
    note d = binary_line_syntax [OF parse_op_div _ _ ws t1 t2 t3, of ops current]
    note r = binary_line_syntax [OF parse_op_rem _ _ ws t1 t2 t3, of ops current]
    show "process_line_calc ops current (CHR ''/'' # ws @ tok) =
        Some (if d_ne0 ops (lit_value ops tok) then (d_div ops current (lit_value ops tok), [])
              else (current, [BadDivArg]))
      \<and> process_line_p0 ops current (CHR ''/'' # ws @ tok) =
        Some (if d_ne0 ops (lit_value ops tok) then (d_div ops current (lit_value ops tok), [])
              else (current, [BadDivArg]))
      \<and> process_line_calc ops current (CHR ''%'' # ws @ tok) =
        Some (if d_ne0 ops (lit_value ops tok) then (d_fmod ops current (lit_value ops tok), [])
              else (current, [BadRemArg]))
      \<and> process_line_p0 ops current (CHR ''%'' # ws @ tok) =
        Some (if d_ne0 ops (lit_value ops tok) then (d_fmod ops current (lit_value ops tok), [])
              else (current, [BadRemArg]))"
      using d r by (simp add: binary_calc_def)
  qed
  from gen ex sg show ?thesis by blast
qed

lemma fmod_7_2: "fmod_real 7 2 = 1" "fmod_real (- 7) 2 = - 1"
  by (simp_all add: fmod_real_def)

theorem divide_remainder_witness:
  "list_all isspace '' '' \<and> ''2'' \<noteq> [] \<and> list_all lit_char ''2''
   \<and> digits_in (butlast ''2'') < max_decimal_digits
   \<and> process_line_calc exact_ops 7 ''/ 2'' = Some (3.5, [])
   \<and> process_line_p0 exact_ops 7 ''/ 2'' = Some (3.5, [])
   \<and> process_line_calc exact_ops (- 7) ''% 2'' = Some (- 1, [])
   \<and> process_line_p0 exact_ops 7 ''% 2'' = Some (1, [])
   \<and> process_line_calc exact_ops 7 ''/ 0.0'' = Some (7, [BadDivArg])
   \<and> process_line_p0 exact_ops 7 ''% 0.0'' = Some (7, [BadRemArg])
   \<and> (2::real) \<noteq> 0 \<and> d_fmod exact_ops (- 7) 2 \<le> 0"
  using divide_remainder [where ops = exact_ops and ws = "'' ''" and tok = "''2''" and current = 7]
    divide_remainder [where ops = exact_ops and ws = "'' ''" and tok = "''2''" and current = "- 7"
      and x = "- 7" and y = 2]
    divide_remainder [where ops = exact_ops and ws = "'' ''" and tok = "''0.0''" and current = 7]
  by (simp add: lit_eval isspace_def fmod_7_2)


subsection \<open>Set\<close>

lemma set_line:
  assumes d: "is_digit c" and tok: "list_all lit_char (c # cs)"
    "digits_in (butlast (c # cs)) < max_decimal_digits"
  shows "process_line_calc ops current (c # cs) = Some (lit_value ops (c # cs), [])"
    and "process_line_p0 ops current (c # cs) = Some (lit_value ops (c # cs), [])"
proof -
  let ?line = "c # cs"
  have op: "parse_op_p0 ?line 0 = Some (SET, 0, [])" using d by (rule parse_op_digit)
  have nb: "char_at ?line 0 \<noteq> Some (CHR ''('')"
    using is_digit_not_bracket [OF d] by (simp add: char_at_def)
  have ns: "\<not> isspace c" using tok(1) by (simp add: lit_char_not_space)
  then have sk: "skip_ws ?line 0 = 0" by (simp add: skip_ws_nonspace)
  have run: "parse_arg_loop ops ?line (d_lit ops 0) (skip_ws ?line 0) 0 True (d_lit ops 1) True
               = (lit_value ops ?line, length ?line, True)"
    unfolding sk
    by (subst parse_arg_loop_lit_run) (simp_all only: drop_0 lit_run_full_value [OF tok], simp_all)
  have lt: "skip_ws ?line 0 < length ?line" by (simp add: sk)
  show "process_line_calc ops current ?line = Some (lit_value ops ?line, [])"
    using plain_binary_line(1) [OF op _ nb _ lt run, of current] by (simp add: binary_calc_def)
  show "process_line_p0 ops current ?line = Some (lit_value ops ?line, [])"
    using plain_binary_line(2) [OF op _ nb _ lt run, of current] by (simp add: binary_calc_def)
qed

text \<open>
  \<^bold>\<open>Claim C5\<close>, as amended. The claim evaluates the line \<^verbatim>\<open>SET 5\<close>; the code has no
  \<^verbatim>\<open>SET\<close> keyword. Set is the operation recognised when the first character is a
  decimal digit, with the cursor left on that digit, and its result is the parsed value
  whatever the accumulator: a line that is a literal starting with a digit yields the
  value of the literal, and the line \<^verbatim>\<open>5\<close> yields 5 from any accumulator. The line
  \<^verbatim>\<open>SET 5\<close> is an unknown operation (its \<^verbatim>\<open>S\<close> is not followed by \<^verbatim>\<open>Q\<close>) and
  returns the accumulator as it was.
\<close>

theorem set_recognised:
  "(is_digit c \<longrightarrow>
      parse_op_calc (c # rest) 0 = Some (SET, 0, []) \<and> parse_op_p0 (c # rest) 0 = Some (SET, 0, []))
   \<and> (is_digit c \<and> list_all lit_char (c # cs) \<and> digits_in (butlast (c # cs)) < max_decimal_digits
        \<longrightarrow> process_line_calc ops current (c # cs) = Some (lit_value ops (c # cs), [])
          \<and> process_line_p0 ops current (c # cs) = Some (lit_value ops (c # cs), []))
   \<and> process_line_calc exact_ops x ''5'' = Some (5, [])
   \<and> process_line_p0 exact_ops x ''5'' = Some (5, [])
   \<and> process_line_calc ops current ''SET 5'' = Some (current, [UnknownOperation ''SET 5''])
   \<and> process_line_p0 ops current ''SET 5'' = Some (current, [UnknownOperation ''SET 5''])"
proof -
  have "is_digit c \<longrightarrow>
      parse_op_calc (c # rest) 0 = Some (SET, 0, []) \<and> parse_op_p0 (c # rest) 0 = Some (SET, 0, [])"
    by (simp add: parse_op_calc_def delete_brackets_no is_digit_not_bracket parse_op_digit)
  moreover have "is_digit c \<and> list_all lit_char (c # cs)
        \<and> digits_in (butlast (c # cs)) < max_decimal_digits
        \<longrightarrow> process_line_calc ops current (c # cs) = Some (lit_value ops (c # cs), [])
          \<and> process_line_p0 ops current (c # cs) = Some (lit_value ops (c # cs), [])"
    using set_line [of c cs ops current] by blast
  moreover have "process_line_calc exact_ops x ''5'' = Some (5, [])"
    "process_line_p0 exact_ops x ''5'' = Some (5, [])"
    by (simp_all add: calc_eval)
  moreover have "process_line_calc ops current ''SET 5'' = Some (current, [UnknownOperation ''SET 5''])"
    "process_line_p0 ops current ''SET 5'' = Some (current, [UnknownOperation ''SET 5''])"
    by (simp_all add: calc_eval)
  ultimately show ?thesis by blast
qed

theorem set_recognised_witness:
  "is_digit (CHR ''7'')
   \<and> parse_op_calc ''73'' 0 = Some (SET, 0, []) \<and> parse_op_p0 ''73'' 0 = Some (SET, 0, [])
   \<and> list_all lit_char ''7.5'' \<and> digits_in (butlast ''7.5'') < max_decimal_digits
   \<and> process_line_calc exact_ops 2 ''7.5'' = Some (7.5, [])
   \<and> process_line_p0 exact_ops 2 ''7.5'' = Some (7.5, [])
   \<and> process_line_calc exact_ops 2 ''5'' = Some (5, [])
   \<and> process_line_p0 exact_ops 2 ''5'' = Some (5, [])"
  using set_recognised [where c = "CHR ''7''" and rest = "''3''" and cs = "''.5''"
      and ops = exact_ops and current = 2 and x = 2]
  by (simp add: lit_eval)


text \<open>The claim as stated fails: from the accumulator 2 the line \<^verbatim>\<open>SET 5\<close> yields 2.\<close>

theorem set_keyword_counterexample:
  "map_option fst (process_line_calc exact_ops 2 ''SET 5'') = Some 2
   \<and> map_option fst (process_line_p0 exact_ops 2 ''SET 5'') = Some 2
   \<and> map_option fst (process_line_calc exact_ops 2 ''SET 5'') \<noteq> Some 5
   \<and> map_option fst (process_line_p0 exact_ops 2 ''SET 5'') \<noteq> Some 5"
  by (simp add: calc_eval)

section \<open>The left fold on valid lines\<close>

lemma skip_ws_takeWhile:
  "i \<le> length line \<Longrightarrow> skip_ws line i = i + length (takeWhile isspace (drop i line))"
proof (induction line i rule: skip_ws.induct)
  case (1 line i)
  show ?case
  proof (cases "i < length line \<and> isspace (line ! i)")
    case True
    then have d: "drop i line = line ! i # drop (i + 1) line" by (simp add: Cons_nth_drop_Suc)
    from True "1.IH" [OF True] have "skip_ws line (i + 1) = i + 1 + length (takeWhile isspace (drop (i + 1) line))"
      by simp
    with True d show ?thesis by (subst skip_ws.simps) simp
  next
    case False
    show ?thesis
    proof (cases "i < length line")
      case True
      then have d: "drop i line = line ! i # drop (i + 1) line" by (simp add: Cons_nth_drop_Suc)
      with False True show ?thesis by (subst skip_ws.simps) simp
    next
      case F: False
      with "1.prems" show ?thesis by (subst skip_ws.simps) simp
    qed
  qed
qed

lemma drop_skip_ws: "i \<le> length line \<Longrightarrow> drop (skip_ws line i) line = dropWhile isspace (drop i line)"
  by (simp add: skip_ws_takeWhile dropWhile_eq_drop add.commute)

lemma parse_number_length_loop_takeWhile:
  "i \<le> length line \<Longrightarrow>
   parse_number_length_loop line i count = count + length (takeWhile (\<lambda>c. \<not> isspace c) (drop i line))"
proof (induction line i count rule: parse_number_length_loop.induct)
  case (1 line i count)
  show ?case
  proof (cases "i < length line")
    case True
    then have d: "drop i line = line ! i # drop (i + 1) line" by (simp add: Cons_nth_drop_Suc)
    show ?thesis
    proof (cases "isspace (line ! i)")
      case s: True
      with True d show ?thesis by (subst parse_number_length_loop.simps) simp
    next
      case s: False
      from "1.IH" [OF conjI [OF True s]] True
      have "parse_number_length_loop line (i + 1) (count + 1)
              = count + 1 + length (takeWhile (\<lambda>c. \<not> isspace c) (drop (i + 1) line))" by simp
      with True s d show ?thesis by (subst parse_number_length_loop.simps) simp
    qed
  next
    case False
    with "1.prems" show ?thesis by (subst parse_number_length_loop.simps) simp
  qed
qed

lemma substr_token:
  "i \<le> length line \<Longrightarrow>
   substr line i (parse_number_length_loop line i 0) = takeWhile (\<lambda>c. \<not> isspace c) (drop i line)"
  using takeWhile_eq_take [of "\<lambda>c. \<not> isspace c" "drop i line"]
  by (simp add: substr_def parse_number_length_loop_takeWhile)

lemma drop_token:
  "i \<le> length line \<Longrightarrow>
   drop (i + parse_number_length_loop line i 0) line = dropWhile (\<lambda>c. \<not> isspace c) (drop i line)"
  by (simp add: parse_number_length_loop_takeWhile dropWhile_eq_drop add.commute)

lemma token_end_le:
  "i \<le> length line \<Longrightarrow> i + parse_number_length_loop line i 0 \<le> length line"
  using length_takeWhile_le [of "\<lambda>c. \<not> isspace c" "drop i line"]
  by (simp add: parse_number_length_loop_takeWhile)

lemma parse_number_loop_tokens:
  "i \<le> length line \<Longrightarrow> parse_number_loop line i numbers = numbers @ ws_tokens (drop i line)"
proof (induction line i numbers rule: parse_number_loop.induct)
  case (1 line i numbers)
  show ?case
  proof (cases "i < length line")
    case False
    with "1.prems" show ?thesis
      by (subst parse_number_loop.simps, subst ws_tokens.simps) simp
  next
    case True
    let ?i' = "skip_ws line i"
    let ?n = "parse_number_length line ?i'"
    have i': "?i' \<le> length line" using "1.prems" by (rule skip_ws_le)
    have e: "?i' + ?n \<le> length line" using token_end_le [OF i'] by (simp add: parse_number_length_def)
    have s': "drop ?i' line = dropWhile isspace (drop i line)" using "1.prems" by (rule drop_skip_ws)
    have tok: "substr line ?i' ?n = takeWhile (\<lambda>c. \<not> isspace c) (drop ?i' line)"
      using substr_token [OF i'] by (simp add: parse_number_length_def)
    have rest: "drop (?i' + ?n) line = dropWhile (\<lambda>c. \<not> isspace c) (drop ?i' line)"
      using drop_token [OF i'] by (simp add: parse_number_length_def)
    have n0: "?n = 0 \<longleftrightarrow> takeWhile (\<lambda>c. \<not> isspace c) (drop ?i' line) = []"
      using parse_number_length_loop_takeWhile [OF i', of 0] by (simp add: parse_number_length_def)
    have hd: "drop ?i' line \<noteq> [] \<Longrightarrow> \<not> isspace (hd (drop ?i' line))"
      unfolding s' using hd_dropWhile [of isspace "drop i line"] by simp
    have IH: "parse_number_loop line (?i' + ?n)
                (if ?n \<noteq> 0 then numbers @ [substr line ?i' ?n] else numbers)
              = (if ?n \<noteq> 0 then numbers @ [substr line ?i' ?n] else numbers)
                  @ ws_tokens (drop (?i' + ?n) line)"
      using "1.IH" [OF True refl refl e] by simp
    show ?thesis
    proof (cases "drop ?i' line = []")
      case e: True
      then have "?n = 0" using n0 by simp
      moreover have "ws_tokens (drop i line) = []"
        using e s' by (subst ws_tokens.simps) simp
      moreover have "ws_tokens (drop (?i' + ?n) line) = []"
        using e rest by (subst ws_tokens.simps) simp
      ultimately show ?thesis
        using True IH by (subst parse_number_loop.simps) (simp add: Let_def)
    next
      case ne: False
      then obtain c cs where c: "drop ?i' line = c # cs" by (cases "drop ?i' line") auto
      with hd have "\<not> isspace c" by simp
      with c n0 have nz: "?n \<noteq> 0" by simp
      have "ws_tokens (drop i line) = substr line ?i' ?n # ws_tokens (drop (?i' + ?n) line)"
        using ne s' tok rest by (subst ws_tokens.simps) (simp add: Let_def)
      then show ?thesis
        using True IH nz by (subst parse_number_loop.simps) (simp add: Let_def)
    qed
  qed
qed


lemma apply_op_simps:
  "apply_op ops ADD left right = d_add ops left right"
  "apply_op ops SUB left right = d_sub ops left right"
  "apply_op ops MUL left right = d_mul ops left right"
  "apply_op ops POW left right = d_pow ops left right"
  "apply_op ops DIV left right = d_div ops left right"
  "apply_op ops REM left right = d_fmod ops left right"
  by (simp_all add: apply_op_def)

lemma valid_token_simps:
  "valid_token ops ADD = accepted_literal"
  "valid_token ops SUB = accepted_literal"
  "valid_token ops MUL = accepted_literal"
  "valid_token ops POW = accepted_literal"
  "valid_token ops DIV = (\<lambda>tok. accepted_literal tok \<and> d_ne0 ops (lit_value ops tok))"
  "valid_token ops REM = (\<lambda>tok. accepted_literal tok \<and> d_ne0 ops (lit_value ops tok))"
  by (simp_all add: valid_token_def apply_ok_def fun_eq_iff)

lemma binary_calc_ok:
  "apply_ok ops op right \<Longrightarrow>
   binary_calc ops op left right True = (apply_op ops op left right, True, [])"
  by (cases op) (auto simp: apply_ok_def apply_op_def binary_calc_def)

lemma valid_token_parse:
  assumes "valid_token ops op tok"
  shows "parse_arg_calc ops tok 0 True = (lit_value ops tok, length tok, True, [])"
    and "parse_arg_p0 ops tok 0 = (lit_value ops tok, length tok, True, [])"
proof -
  from assms have "list_all lit_char tok" "digits_in (butlast tok) < max_decimal_digits"
    by (simp_all add: valid_token_def accepted_literal_def)
  then have "lit_run ops (d_lit ops 0) 0 True (d_lit ops 1) tok = (lit_value ops tok, length tok, True)"
    by (rule lit_run_full_value)
  then show "parse_arg_calc ops tok 0 True = (lit_value ops tok, length tok, True, [])"
    and "parse_arg_p0 ops tok 0 = (lit_value ops tok, length tok, True, [])"
    unfolding parse_arg_calc_lit_run parse_arg_p0_lit_run by simp_all
qed

lemma process_numbers_fold:
  "is_fold line \<Longrightarrow> op \<noteq> SET \<Longrightarrow> list_all (valid_token ops op) toks \<Longrightarrow>
   process_numbers ops line op current res i True ds toks =
     (foldl (\<lambda>acc tok. apply_op ops op acc (lit_value ops tok)) res toks, ds)"
proof (induction toks arbitrary: res i ds)
  case Nil
  then show ?case by simp
next
  case (Cons tok toks)
  from Cons.prems have v: "valid_token ops op tok" and vs: "list_all (valid_token ops op) toks"
    by simp_all
  from v have ok: "apply_ok ops op (lit_value ops tok)" by (simp add: valid_token_def)
  show ?case
    using Cons.prems(1,2) Cons.IH [OF Cons.prems(1,2) vs]
    by (subst process_numbers.simps)
       (simp add: valid_token_parse(1) [OF v] binary_calc_ok [OF ok])
qed

lemma ws_tokens_dropWhile: "ws_tokens (dropWhile isspace s) = ws_tokens s"
  by (subst ws_tokens.simps, subst (2) ws_tokens.simps) (simp add: dropWhile_idem)

lemma ws_tokens_Cons:
  "\<not> isspace c \<Longrightarrow>
   ws_tokens (c # cs) = takeWhile (\<lambda>c. \<not> isspace c) (c # cs) # ws_tokens (dropWhile (\<lambda>c. \<not> isspace c) (c # cs))"
  by (subst ws_tokens.simps) (simp add: Let_def)

lemma skip_ws_stop:
  "skip_ws line i < length line \<Longrightarrow> \<not> isspace (line ! skip_ws line i)"
proof (induction line i rule: skip_ws.induct)
  case (1 line i)
  show ?case
  proof (cases "i < length line \<and> isspace (line ! i)")
    case True
    then have e: "skip_ws line i = skip_ws line (i + 1)" by (subst skip_ws.simps) simp
    with "1.IH" [OF True] "1.prems" show ?thesis by simp
  next
    case False
    then have e: "skip_ws line i = i" by (rule skip_ws_nonspace)
    with False "1.prems" show ?thesis by simp
  qed
qed

lemma left_fold_loop_fold:
  "i \<le> length line \<Longrightarrow> (i < length line \<longrightarrow> \<not> isspace (line ! i)) \<Longrightarrow>
   list_all (valid_token ops op) (ws_tokens (drop i line)) \<Longrightarrow>
   left_fold_loop ops op old_current line current i ds =
     (foldl (\<lambda>acc tok. apply_op ops op acc (lit_value ops tok)) current (ws_tokens (drop i line)), ds)"
proof (induction ops op old_current line current i ds rule: left_fold_loop.induct)
  case (1 ops op old_current line current i ds)
  show ?case
  proof (cases "i < length line")
    case False
    with "1.prems" show ?thesis
      by (subst left_fold_loop.simps, subst ws_tokens.simps) simp
  next
    case True
    let ?n = "parse_number_p0 line i"
    let ?tok = "substr line i ?n"
    let ?i' = "skip_ws line (i + ?n)"
    from True have d: "drop i line = line ! i # drop (i + 1) line" by (simp add: Cons_nth_drop_Suc)
    from True "1.prems"(2) have ns: "\<not> isspace (line ! i)" by simp
    have tok: "?tok = takeWhile (\<lambda>c. \<not> isspace c) (drop i line)"
      using substr_token [OF "1.prems"(1)] by (simp add: parse_number_p0_def)
    have e: "i + ?n \<le> length line"
      using token_end_le [OF "1.prems"(1)] by (simp add: parse_number_p0_def)
    have rest: "drop (i + ?n) line = dropWhile (\<lambda>c. \<not> isspace c) (drop i line)"
      using drop_token [OF "1.prems"(1)] by (simp add: parse_number_p0_def)
    have toks: "ws_tokens (drop i line) = ?tok # ws_tokens (drop ?i' line)"
      using ws_tokens_Cons [OF ns, of "drop (i + 1) line"]
      by (simp only: d [symmetric] tok rest [symmetric] drop_skip_ws [OF e] ws_tokens_dropWhile)
    from "1.prems"(3) toks have v: "valid_token ops op ?tok"
      and vs: "list_all (valid_token ops op) (ws_tokens (drop ?i' line))" by simp_all
    from v have ok: "apply_ok ops op (lit_value ops ?tok)" by (simp add: valid_token_def)
    have i': "?i' \<le> length line" using e by (rule skip_ws_le)
    have stop: "?i' < length line \<longrightarrow> \<not> isspace (line ! ?i')" using skip_ws_stop by blast
    have b: "binary_p0 ops op current (lit_value ops ?tok)
               = (apply_op ops op current (lit_value ops ?tok), True, [])"
      using binary_calc_ok [OF ok] by (simp add: binary_p0_def)
    have IH: "left_fold_loop ops op old_current line (apply_op ops op current (lit_value ops ?tok)) ?i' ds
        = (foldl (\<lambda>acc tok. apply_op ops op acc (lit_value ops tok))
             (apply_op ops op current (lit_value ops ?tok)) (ws_tokens (drop ?i' line)), ds)"
      using "1.IH" [OF True valid_token_parse(2) [OF v, symmetric] refl refl _ b [symmetric] refl _ i' stop vs]
      by simp
    show ?thesis
      using True IH
      by (subst left_fold_loop.simps) (simp add: valid_token_parse(2) [OF v] b toks)
  qed
qed


lemma op_char_facts:
  assumes "c \<in> set ''+-*/%^''"
  shows "arity (op_of_char c) = 2" "op_of_char c \<noteq> SET" "c \<noteq> CHR '')''" "c \<noteq> CHR ''(''"
    "\<not> isspace c" "\<not> is_digit c"
    "parse_op_p0 (c # rest) 0 = Some (op_of_char c, 1, [])"
    "parse_op_p0 (b # c # rest) (Suc 0) = Some (op_of_char c, 2, [])"
  using assms
  by (auto simp: op_of_char_def isspace_def is_digit_def parse_op_p0_def char_at_def)

lemma not_space_bracket: "\<not> isspace (CHR ''('')"
  by (simp add: isspace_def)

lemma fold_line_calc:
  assumes c: "c \<in> set ''+-*/%^''"
    and v: "list_all (valid_token ops (op_of_char c)) (ws_tokens rest)" and ne: "ws_tokens rest \<noteq> []"
  shows "process_line_calc ops current (CHR ''('' # c # CHR '')'' # rest) =
           Some (foldl (\<lambda>acc tok. apply_op ops (op_of_char c) acc (lit_value ops tok)) current
                   (ws_tokens rest), [])"
proof -
  let ?line = "CHR ''('' # c # CHR '')'' # rest"
  note f = op_char_facts [OF c]
  have db: "delete_brackets ?line = c # rest"
    using f(3,5)
    by (simp add: delete_brackets_def char_at_def delete_brackets_loop.simps substr_def
          not_space_bracket)
  have sb: "skip_brackets_calc ?line 1 = 3"
    using f(3)
    by (simp add: skip_brackets_calc_def char_at_def skip_brackets_loop.simps)
  have pn: "parse_number_calc ?line 3 = (ws_tokens rest, [])"
    using parse_number_loop_tokens [of 3 ?line "[]"] ne by (simp add: parse_number_calc_def)
  have fo: "is_fold ?line" by (simp add: is_fold_def char_at_def)
  show ?thesis
    using f(1,2) sb pn
    by (simp add: process_line_calc_def parse_op_calc_def db f(7)
          process_numbers_fold [OF fo f(2) v])
qed

lemma fold_line_p0:
  assumes c: "c \<in> set ''+-*/%^''"
    and v: "list_all (valid_token ops (op_of_char c)) (ws_tokens rest)" and ne: "ws_tokens rest \<noteq> []"
  shows "process_line_p0 ops current (CHR ''('' # c # CHR '')'' # rest) =
           Some (foldl (\<lambda>acc tok. apply_op ops (op_of_char c) acc (lit_value ops tok)) current
                   (ws_tokens rest), [])"
proof -
  let ?line = "CHR ''('' # c # CHR '')'' # rest"
  let ?i = "skip_ws ?line 3"
  note f = op_char_facts [OF c]
  have sb: "skip_brackets_p0 ?line 0 = 3"
    using f(3)
    by (simp add: skip_brackets_p0.simps char_at_def)
  have d: "drop ?i ?line = dropWhile isspace rest"
    using drop_skip_ws [of 3 ?line] by simp
  have le: "?i \<le> length ?line" by (rule skip_ws_le) simp
  have toks: "ws_tokens (drop ?i ?line) = ws_tokens rest"
    by (simp only: d ws_tokens_dropWhile)
  have "drop ?i ?line \<noteq> []"
    using ne toks by (subst (asm) ws_tokens.simps) (auto simp: Let_def split: if_splits)
  then have lt: "?i < length ?line" by simp
  have stop: "?i < length ?line \<longrightarrow> \<not> isspace (?line ! ?i)" using skip_ws_stop by blast
  have v': "list_all (valid_token ops (op_of_char c)) (ws_tokens (drop ?i ?line))"
    using v by (simp only: toks)
  have lf: "left_fold ops current ?line =
          Some (foldl (\<lambda>acc tok. apply_op ops (op_of_char c) acc (lit_value ops tok)) current
                   (ws_tokens rest), [])"
    using f(1,2) lt left_fold_loop_fold [OF le stop v', of current current "[]"]
    by (simp add: left_fold_def f(8) sb toks Let_def)
  show ?thesis
    using process_line_p0_triple [of ?line ops current] lf by (simp add: bracket_triple_def)
qed

text \<open>
  \<^bold>\<open>Claim C3\<close>. On a line made of the bracketed operator, one of \<^verbatim>\<open>+ - * / % ^\<close>,
  followed by at least one whitespace-delimited token, where every token is a literal
  the parser accepts and no token is a zero under \<^verbatim>\<open>/\<close> or \<^verbatim>\<open>%\<close>, both files
  return the left fold of the operator over the values of the tokens, each parsed on its
  own from its first character, starting from the accumulator, with no message: the
  fold of the sum for \<^verbatim>\<open>+\<close>, of the difference for \<^verbatim>\<open>-\<close>, of the product for the
  star, of the power for \<^verbatim>\<open>^\<close>, of the quotient for \<^verbatim>\<open>/\<close> and of the floating
  remainder for \<^verbatim>\<open>%\<close>. With exact arithmetic \<^verbatim>\<open>(+) 1 2 3\<close> takes 0 to 6.
\<close>

theorem left_fold_valid:
  "(ws_tokens rest \<noteq> [] \<and> list_all accepted_literal (ws_tokens rest) \<longrightarrow>
      process_line_calc ops current (CHR ''('' # CHR ''+'' # CHR '')'' # rest) =
        Some (foldl (\<lambda>acc tok. d_add ops acc (lit_value ops tok)) current (ws_tokens rest), [])
      \<and> process_line_p0 ops current (CHR ''('' # CHR ''+'' # CHR '')'' # rest) =
        Some (foldl (\<lambda>acc tok. d_add ops acc (lit_value ops tok)) current (ws_tokens rest), [])
      \<and> process_line_calc ops current (CHR ''('' # CHR ''-'' # CHR '')'' # rest) =
        Some (foldl (\<lambda>acc tok. d_sub ops acc (lit_value ops tok)) current (ws_tokens rest), [])
      \<and> process_line_p0 ops current (CHR ''('' # CHR ''-'' # CHR '')'' # rest) =
        Some (foldl (\<lambda>acc tok. d_sub ops acc (lit_value ops tok)) current (ws_tokens rest), [])
      \<and> process_line_calc ops current (CHR ''('' # CHR ''*'' # CHR '')'' # rest) =
        Some (foldl (\<lambda>acc tok. d_mul ops acc (lit_value ops tok)) current (ws_tokens rest), [])
      \<and> process_line_p0 ops current (CHR ''('' # CHR ''*'' # CHR '')'' # rest) =
        Some (foldl (\<lambda>acc tok. d_mul ops acc (lit_value ops tok)) current (ws_tokens rest), [])
      \<and> process_line_calc ops current (CHR ''('' # CHR ''^'' # CHR '')'' # rest) =
        Some (foldl (\<lambda>acc tok. d_pow ops acc (lit_value ops tok)) current (ws_tokens rest), [])
      \<and> process_line_p0 ops current (CHR ''('' # CHR ''^'' # CHR '')'' # rest) =
        Some (foldl (\<lambda>acc tok. d_pow ops acc (lit_value ops tok)) current (ws_tokens rest), []))
   \<and> (ws_tokens rest \<noteq> []
        \<and> list_all (\<lambda>tok. accepted_literal tok \<and> d_ne0 ops (lit_value ops tok)) (ws_tokens rest) \<longrightarrow>
      process_line_calc ops current (CHR ''('' # CHR ''/'' # CHR '')'' # rest) =
        Some (foldl (\<lambda>acc tok. d_div ops acc (lit_value ops tok)) current (ws_tokens rest), [])
      \<and> process_line_p0 ops current (CHR ''('' # CHR ''/'' # CHR '')'' # rest) =
        Some (foldl (\<lambda>acc tok. d_div ops acc (lit_value ops tok)) current (ws_tokens rest), [])
      \<and> process_line_calc ops current (CHR ''('' # CHR ''%'' # CHR '')'' # rest) =
        Some (foldl (\<lambda>acc tok. d_fmod ops acc (lit_value ops tok)) current (ws_tokens rest), [])
      \<and> process_line_p0 ops current (CHR ''('' # CHR ''%'' # CHR '')'' # rest) =
        Some (foldl (\<lambda>acc tok. d_fmod ops acc (lit_value ops tok)) current (ws_tokens rest), []))
   \<and> process_line_calc exact_ops 0 ''(+) 1 2 3'' = Some (6, [])
   \<and> process_line_p0 exact_ops 0 ''(+) 1 2 3'' = Some (6, [])"
proof -
  have ex: "process_line_calc exact_ops 0 ''(+) 1 2 3'' = Some (6, [])"
    "process_line_p0 exact_ops 0 ''(+) 1 2 3'' = Some (6, [])"
    by (simp_all add: calc_eval)
  have plain: "ws_tokens rest \<noteq> [] \<and> list_all accepted_literal (ws_tokens rest) \<longrightarrow>
      process_line_calc ops current (CHR ''('' # CHR ''+'' # CHR '')'' # rest) =
        Some (foldl (\<lambda>acc tok. d_add ops acc (lit_value ops tok)) current (ws_tokens rest), [])
      \<and> process_line_p0 ops current (CHR ''('' # CHR ''+'' # CHR '')'' # rest) =
        Some (foldl (\<lambda>acc tok. d_add ops acc (lit_value ops tok)) current (ws_tokens rest), [])
      \<and> process_line_calc ops current (CHR ''('' # CHR ''-'' # CHR '')'' # rest) =
        Some (foldl (\<lambda>acc tok. d_sub ops acc (lit_value ops tok)) current (ws_tokens rest), [])
      \<and> process_line_p0 ops current (CHR ''('' # CHR ''-'' # CHR '')'' # rest) =
        Some (foldl (\<lambda>acc tok. d_sub ops acc (lit_value ops tok)) current (ws_tokens rest), [])
      \<and> process_line_calc ops current (CHR ''('' # CHR ''*'' # CHR '')'' # rest) =
        Some (foldl (\<lambda>acc tok. d_mul ops acc (lit_value ops tok)) current (ws_tokens rest), [])
      \<and> process_line_p0 ops current (CHR ''('' # CHR ''*'' # CHR '')'' # rest) =
        Some (foldl (\<lambda>acc tok. d_mul ops acc (lit_value ops tok)) current (ws_tokens rest), [])
      \<and> process_line_calc ops current (CHR ''('' # CHR ''^'' # CHR '')'' # rest) =
        Some (foldl (\<lambda>acc tok. d_pow ops acc (lit_value ops tok)) current (ws_tokens rest), [])
      \<and> process_line_p0 ops current (CHR ''('' # CHR ''^'' # CHR '')'' # rest) =
        Some (foldl (\<lambda>acc tok. d_pow ops acc (lit_value ops tok)) current (ws_tokens rest), [])"
    using fold_line_calc [of "CHR ''+''" ops rest current] fold_line_p0 [of "CHR ''+''" ops rest current]
      fold_line_calc [of "CHR ''-''" ops rest current] fold_line_p0 [of "CHR ''-''" ops rest current]
      fold_line_calc [of "CHR ''*''" ops rest current] fold_line_p0 [of "CHR ''*''" ops rest current]
      fold_line_calc [of "CHR ''^''" ops rest current] fold_line_p0 [of "CHR ''^''" ops rest current]
    by (simp add: op_of_char_def valid_token_simps apply_op_simps)
  have guarded: "ws_tokens rest \<noteq> []
        \<and> list_all (\<lambda>tok. accepted_literal tok \<and> d_ne0 ops (lit_value ops tok)) (ws_tokens rest) \<longrightarrow>
      process_line_calc ops current (CHR ''('' # CHR ''/'' # CHR '')'' # rest) =
        Some (foldl (\<lambda>acc tok. d_div ops acc (lit_value ops tok)) current (ws_tokens rest), [])
      \<and> process_line_p0 ops current (CHR ''('' # CHR ''/'' # CHR '')'' # rest) =
        Some (foldl (\<lambda>acc tok. d_div ops acc (lit_value ops tok)) current (ws_tokens rest), [])
      \<and> process_line_calc ops current (CHR ''('' # CHR ''%'' # CHR '')'' # rest) =
        Some (foldl (\<lambda>acc tok. d_fmod ops acc (lit_value ops tok)) current (ws_tokens rest), [])
      \<and> process_line_p0 ops current (CHR ''('' # CHR ''%'' # CHR '')'' # rest) =
        Some (foldl (\<lambda>acc tok. d_fmod ops acc (lit_value ops tok)) current (ws_tokens rest), [])"
    using fold_line_calc [of "CHR ''/''" ops rest current] fold_line_p0 [of "CHR ''/''" ops rest current]
      fold_line_calc [of "CHR ''%''" ops rest current] fold_line_p0 [of "CHR ''%''" ops rest current]
    by (simp add: op_of_char_def valid_token_simps apply_op_simps)
  from plain guarded ex show ?thesis by blast
qed

lemma ws_tokens_example: "ws_tokens '' 4 2.5  1'' = [''4'', ''2.5'', ''1'']"
  by (simp add: ws_tokens.simps isspace_def)


theorem left_fold_valid_witness:
  "ws_tokens '' 4 2.5  1'' = [''4'', ''2.5'', ''1'']
   \<and> list_all accepted_literal [''4'', ''2.5'', ''1'']
   \<and> list_all (\<lambda>tok. accepted_literal tok \<and> d_ne0 exact_ops (lit_value exact_ops tok))
        [''4'', ''2.5'', ''1'']
   \<and> process_line_calc exact_ops 3 ''(-) 4 2.5  1'' = Some (- 4.5, [])
   \<and> process_line_p0 exact_ops 3 ''(-) 4 2.5  1'' = Some (- 4.5, [])
   \<and> process_line_calc exact_ops 3 (CHR ''('' # CHR ''*'' # CHR '')'' # '' 4 2.5  1'') = Some (30, [])
   \<and> process_line_p0 exact_ops 3 (CHR ''('' # CHR ''*'' # CHR '')'' # '' 4 2.5  1'') = Some (30, [])
   \<and> process_line_calc exact_ops 3 ''(/) 4 2.5  1'' = Some (0.3, [])
   \<and> process_line_p0 exact_ops 3 ''(/) 4 2.5  1'' = Some (0.3, [])"
  using left_fold_valid [of "'' 4 2.5  1''" exact_ops 3]
  by (simp add: ws_tokens_example accepted_literal_def lit_eval)


section \<open>The accumulator after a message\<close>

text \<open>Neither evaluator reads beyond the terminator when it recognises the operation
  from the start of the line.\<close>

lemma parse_op_p0_total: "i \<le> length line \<Longrightarrow> \<exists>op j ds. parse_op_p0 line i = Some (op, j, ds)"
  by (auto simp: parse_op_p0_def char_at_def rollback_def)

lemma parse_op_p0_diags:
  "parse_op_p0 line i = Some (op, j, ds) \<Longrightarrow> op \<noteq> ERR \<Longrightarrow> ds = []"
  by (auto simp: parse_op_p0_def char_at_def rollback_def split: if_splits bind_splits)

lemma parse_arg_calc_good:
  "parse_arg_calc ops line i good = (arg, i', g, ds) \<Longrightarrow> g \<Longrightarrow> ds = []"
  by (auto simp: parse_arg_calc_def split: prod.splits if_splits)

lemma binary_calc_good:
  "binary_calc ops op left right good = (res, True, ds) \<Longrightarrow> good \<and> ds = []"
  by (cases op) (auto simp: binary_calc_def split: if_splits)

lemma process_numbers_unchanged:
  "process_numbers ops line op current res i True ds numbers = (v, ds') \<Longrightarrow>
   v = current \<or> ds' = ds"
proof (induction numbers arbitrary: res i ds)
  case Nil
  then show ?case by simp
next
  case (Cons tok numbers)
  show ?case
  proof (cases "is_fold line")
    case True
    show ?thesis
    proof (cases "op = SET")
      case s: True
      with True Cons.prems show ?thesis by (simp add: process_numbers.simps)
    next
      case s: False
      obtain arg i' g ds1 where pa: "parse_arg_calc ops tok 0 True = (arg, i', g, ds1)"
        by (cases "parse_arg_calc ops tok 0 True") auto
      obtain res' g' ds2 where b: "binary_calc ops op res arg g = (res', g', ds2)"
        by (cases "binary_calc ops op res arg g") auto
      show ?thesis
      proof (cases g')
        case False
        with True s pa b Cons.prems show ?thesis by (simp add: process_numbers.simps)
      next
        case g': True
        from b g' have "g \<and> ds2 = []" by (auto dest: binary_calc_good)
        then have "g" "ds2 = []" by simp_all
        with pa have "ds1 = []" by (auto dest: parse_arg_calc_good)
        with True s pa b g' \<open>g\<close> \<open>ds2 = []\<close> Cons.prems
        have "process_numbers ops line op current res' i' True ds numbers = (v, ds')"
          by (simp add: process_numbers.simps)
        then show ?thesis by (rule Cons.IH)
      qed
    qed
  next
    case False
    obtain arg i' g ds1 where pa: "parse_arg_calc ops line (skip_ws line i) True = (arg, i', g, ds1)"
      by (cases "parse_arg_calc ops line (skip_ws line i) True") auto
    obtain res' g' ds2 where b: "binary_calc ops op res arg g = (res', g', ds2)"
      by (cases "binary_calc ops op res arg g") auto
    show ?thesis
    proof (cases "i' = skip_ws line i \<or> \<not> g'")
      case True
      with False pa b Cons.prems show ?thesis
        by (auto simp: process_numbers.simps Let_def split: if_splits)
    next
      case c: False
      then have g': "g'" by simp
      from b g' have "g \<and> ds2 = []" by (auto dest: binary_calc_good)
      then have "g" "ds2 = []" by simp_all
      with pa have "ds1 = []" by (auto dest: parse_arg_calc_good)
      with False c pa b g' \<open>g\<close> \<open>ds2 = []\<close> Cons.prems
      have "process_numbers ops line op current res' i' True ds numbers = (v, ds')"
        by (simp add: process_numbers.simps Let_def)
      then show ?thesis by (rule Cons.IH)
    qed
  qed
qed

lemma unary_unchanged: "unary ops current op = (v, ds) \<Longrightarrow> ds \<noteq> [] \<Longrightarrow> v = current"
  by (cases op) (auto simp: unary_def split: if_splits)

text \<open>calc.cpp returns on every line, and whenever it wrote a message the value returned
  is the accumulator it was given.\<close>

lemma process_line_calc_total:
  "\<exists>v ds. process_line_calc ops current line = Some (v, ds)"
proof -
  obtain op i ds0 where "parse_op_p0 (delete_brackets line) 0 = Some (op, i, ds0)"
    using parse_op_p0_total [of 0 "delete_brackets line"] by auto
  then show ?thesis
    by (cases "process_numbers ops line op current current (skip_brackets_calc line i) True
                 (ds0 @ snd (parse_number_calc line (skip_brackets_calc line i)))
                 (fst (parse_number_calc line (skip_brackets_calc line i)))";
        cases "unary ops current op")
       (auto simp: process_line_calc_def parse_op_calc_def Let_def split: prod.splits)
qed

lemma process_line_calc_unchanged:
  assumes "process_line_calc ops current line = Some (v, ds)" "ds \<noteq> []"
  shows "v = current"
proof -
  obtain op i ds0 where po: "parse_op_p0 (delete_brackets line) 0 = Some (op, i, ds0)"
    using parse_op_p0_total [of 0 "delete_brackets line"] by auto
  consider (two) "arity op = 2" | (one) "arity op = 1" | (zero) "arity op \<noteq> 2" "arity op \<noteq> 1"
    by blast
  then show ?thesis
  proof cases
    case two
    then have "op \<noteq> ERR" by auto
    with po have ds0: "ds0 = []" by (rule parse_op_p0_diags)
    let ?i1 = "skip_brackets_calc line i"
    let ?numbers = "parse_number_loop line ?i1 []"
    show ?thesis
    proof (cases "?numbers = []")
      case True
      with assms(1) po two show ?thesis
        by (simp add: process_line_calc_def parse_op_calc_def parse_number_calc_def Let_def)
    next
      case False
      with assms(1) po two ds0
      have "process_numbers ops line op current current ?i1 True [] ?numbers = (v, ds)"
        by (simp add: process_line_calc_def parse_op_calc_def parse_number_calc_def Let_def)
      from process_numbers_unchanged [OF this] assms(2) show ?thesis by simp
    qed
  next
    case one
    with assms po show ?thesis
      by (auto simp: process_line_calc_def parse_op_calc_def split: if_splits prod.splits
            dest: unary_unchanged parse_op_p0_diags)
  next
    case zero
    with assms(1) po show ?thesis
      by (simp add: process_line_calc_def parse_op_calc_def)
  qed
qed


text \<open>part_000 returns on every line but the one-character line \<^verbatim>\<open>(\<close>. Whenever it
  wrote a message other than that of a suffix left, and on the plain path whenever it
  wrote any message, the value returned is the accumulator it was given.\<close>

lemma parse_op_p0_index:
  "parse_op_p0 line i = Some (op, j, ds) \<Longrightarrow> i \<le> length line \<Longrightarrow> j \<le> length line"
  by (auto simp: parse_op_p0_def char_at_def rollback_def split: if_splits bind_splits)

lemma parse_arg_p0_cases:
  assumes "parse_arg_p0 ops line i = (arg, i', g, ds)" "i \<le> length line"
  shows "i' \<le> length line"
    and "g \<Longrightarrow> list_all is_suffix_left ds"
    and "i' = length line \<Longrightarrow> g \<and> ds = []"
proof -
  obtain r n g0 where l: "lit_run ops (d_lit ops 0) 0 True (d_lit ops 1) (drop i line) = (r, n, g0)"
    by (cases "lit_run ops (d_lit ops 0) 0 True (d_lit ops 1) (drop i line)") auto
  have loop: "parse_arg_loop ops line (d_lit ops 0) i 0 True (d_lit ops 1) True = (r, i + n, g0)"
    unfolding parse_arg_loop_lit_run [OF assms(2)] l by simp
  from lit_run_len [OF l] assms(2) have n: "i + n \<le> length line" by simp
  from lit_run_bad [OF l] assms(2) have bad: "\<not> g0 \<Longrightarrow> i + n < length line" by auto
  from assms(1) have e: "i' = i + n"
    unfolding parse_arg_p0_def loop by (auto split: if_splits)
  from n e show "i' \<le> length line" by simp
  from assms(1) show "g \<Longrightarrow> list_all is_suffix_left ds"
    unfolding parse_arg_p0_def loop by (auto simp: is_suffix_left_def split: if_splits)
  from assms(1) bad e show "i' = length line \<Longrightarrow> g \<and> ds = []"
    unfolding parse_arg_p0_def loop by (auto split: if_splits)
qed

lemma binary_p0_diags:
  "binary_p0 ops op left right = (res, g, ds) \<Longrightarrow> (g \<longrightarrow> ds = []) \<and> (\<not> g \<longrightarrow> res = left) \<and> (ds \<noteq> [] \<longrightarrow> \<not> g)"
  by (cases op) (auto simp: binary_p0_def binary_calc_def split: if_splits)

lemma left_fold_loop_unchanged:
  "left_fold_loop ops op old_current line current i ds = (v, ds') \<Longrightarrow> i \<le> length line \<Longrightarrow>
   v = old_current \<or> (\<exists>extra. ds' = ds @ extra \<and> list_all is_suffix_left extra)"
proof (induction ops op old_current line current i ds rule: left_fold_loop.induct)
  case (1 ops op old_current line current i ds)
  show ?case
  proof (cases "i < length line")
    case False
    with "1.prems" show ?thesis by (subst (asm) left_fold_loop.simps) simp
  next
    case True
    let ?n = "parse_number_p0 line i"
    obtain arg pos g ds1 where pa: "parse_arg_p0 ops (substr line i ?n) 0 = (arg, pos, g, ds1)"
      by (cases "parse_arg_p0 ops (substr line i ?n) 0") auto
    obtain cur' g' ds2 where b: "binary_p0 ops op current arg = (cur', g', ds2)"
      by (cases "binary_p0 ops op current arg") auto
    show ?thesis
    proof (cases "g \<and> g'")
      case False
      with True pa b "1.prems"(1) show ?thesis
        by (subst (asm) left_fold_loop.simps) (auto split: if_splits)
    next
      case gg: True
      then have g: g and g': g' by simp_all
      from parse_arg_p0_cases(2) [OF pa _ g] have s1: "list_all is_suffix_left ds1" by simp
      from binary_p0_diags [OF b] g' have s2: "ds2 = []" by simp
      have le: "skip_ws line (i + ?n) \<le> length line"
        using token_end_le [of i line] True by (intro skip_ws_le) (simp add: parse_number_p0_def)
      from True pa b g g' "1.prems"(1)
      have "left_fold_loop ops op old_current line cur' (skip_ws line (i + ?n)) (ds @ ds1 @ ds2) = (v, ds')"
        by (subst (asm) left_fold_loop.simps) simp
      from "1.IH" [OF True pa [symmetric] refl refl _ b [symmetric] refl _ this le] g g'
      have "v = old_current \<or> (\<exists>extra. ds' = (ds @ ds1 @ ds2) @ extra \<and> list_all is_suffix_left extra)"
        by simp
      with s1 s2 show ?thesis by auto
    qed
  qed
qed

lemma plain_p0_unchanged:
  assumes "plain_p0 ops current line = Some (v, ds)" "ds \<noteq> []"
  shows "v = current"
proof -
  obtain op i ds0 where po: "parse_op_p0 line 0 = Some (op, i, ds0)"
    using parse_op_p0_total [of 0 line] by auto
  from parse_op_p0_index [OF po] have i: "i \<le> length line" by simp
  consider (two) "arity op = 2" | (one) "arity op = 1" | (zero) "arity op \<noteq> 2" "arity op \<noteq> 1"
    by blast
  then show ?thesis
  proof cases
    case two
    then have "op \<noteq> ERR" by auto
    with po have ds0: "ds0 = []" by (rule parse_op_p0_diags)
    let ?old = "skip_ws line i"
    obtain arg i' g ds1 where pa: "parse_arg_p0 ops line ?old = (arg, i', g, ds1)"
      by (cases "parse_arg_p0 ops line ?old") auto
    have old: "?old \<le> length line" using i by (rule skip_ws_le)
    note c = parse_arg_p0_cases [OF pa old]
    obtain res g' ds2 where b: "binary_p0 ops op current arg = (res, g', ds2)"
      by (cases "binary_p0 ops op current arg") auto
    show ?thesis
    proof (cases "i' = ?old \<or> i' < length line")
      case True
      with assms(1) po two pa show ?thesis
        by (auto simp: plain_p0_def Let_def split: if_splits)
    next
      case False
      with c(1) have e: "i' = length line" by simp
      from c(3) [OF e] have "ds1 = []" by simp
      with False assms po two pa b ds0 have "v = res" "ds = ds2"
        by (auto simp: plain_p0_def Let_def split: if_splits)
      with binary_p0_diags [OF b] assms(2) show ?thesis by auto
    qed
  next
    case one
    with assms po show ?thesis
      by (auto simp: plain_p0_def split: if_splits prod.splits
            dest: unary_unchanged parse_op_p0_diags)
  next
    case zero
    with assms(1) po show ?thesis
      by (simp add: plain_p0_def)
  qed
qed

lemma left_fold_unchanged:
  assumes "left_fold ops current line = Some (v, ds)" "\<not> list_all is_suffix_left ds"
  shows "v = current"
proof -
  from assms(1) obtain op j ds0 where po: "parse_op_p0 line 1 = Some (op, j, ds0)"
    by (auto simp: left_fold_def split: bind_splits)
  show ?thesis
  proof (cases "arity op \<noteq> 2 \<or> op = SET")
    case True
    with assms(1) po show ?thesis by (auto simp: left_fold_def)
  next
    case False
    then have "op \<noteq> ERR" by auto
    with po have ds0: "ds0 = []" by (rule parse_op_p0_diags)
    let ?i = "skip_ws line (skip_brackets_p0 line 0)"
    show ?thesis
    proof (cases "?i = length line")
      case True
      with assms(1) po False show ?thesis by (auto simp: left_fold_def Let_def)
    next
      case ne: False
      with assms(1) po False ds0
      have l: "left_fold_loop ops op current line current ?i [] = (v, ds)"
        by (auto simp: left_fold_def Let_def)
      have "?i \<le> length line \<or> length line < ?i" by auto
      then show ?thesis
      proof
        assume "?i \<le> length line"
        from left_fold_loop_unchanged [OF l this] assms(2) show ?thesis by auto
      next
        assume "length line < ?i"
        with l assms(2) show ?thesis
          by (subst (asm) left_fold_loop.simps) (simp add: is_suffix_left_def)
      qed
    qed
  qed
qed

lemma process_line_p0_unchanged:
  assumes "process_line_p0 ops current line = Some (v, ds)" "\<not> list_all is_suffix_left ds"
  shows "v = current"
proof (cases "bracket_triple line")
  case True
  with assms(1) have "left_fold ops current line = Some (v, ds)"
    by (simp add: process_line_p0_triple)
  then show ?thesis using assms(2) by (rule left_fold_unchanged)
next
  case False
  from assms(1) have "line \<noteq> ''(''" by (auto simp: process_line_p0_undefined)
  with False assms(1) have "plain_p0 ops current line = Some (v, ds)"
    by (simp add: process_line_p0_plain)
  moreover from assms(2) have "ds \<noteq> []" by auto
  ultimately show ?thesis by (rule plain_p0_unchanged)
qed

lemma process_line_p0_total:
  "line \<noteq> ''('' \<Longrightarrow> \<exists>v ds. process_line_p0 ops current line = Some (v, ds)"
proof (cases "bracket_triple line")
  case True
  then obtain c rest where l: "line = CHR ''('' # c # CHR '')'' # rest"
    by (auto simp: bracket_triple_def split: list.splits)
  obtain op j ds0 where "parse_op_p0 line 1 = Some (op, j, ds0)"
    using parse_op_p0_total [of 1 line] l by auto
  then have "\<exists>v ds. left_fold ops current line = Some (v, ds)"
    by (cases "left_fold_loop ops op current line current
                 (skip_ws line (skip_brackets_p0 line 0)) ds0")
       (auto simp: left_fold_def Let_def)
  with True show ?thesis by (simp add: process_line_p0_triple)
next
  case False
  assume ne: "line \<noteq> ''(''"
  obtain op i ds0 where "parse_op_p0 line 0 = Some (op, i, ds0)"
    using parse_op_p0_total [of 0 line] by auto
  then have "\<exists>v ds. plain_p0 ops current line = Some (v, ds)"
    by (cases "unary ops current op")
       (auto simp: plain_p0_def Let_def split: prod.splits)
  with False ne show ?thesis by (simp add: process_line_p0_plain)
qed


text \<open>
  \<^bold>\<open>Claim C1\<close>: the code of part_000 breaks it. In \<^verbatim>\<open>left_fold\<close> a token that the
  parser leaves before its end (more than ten digits) writes the message of a suffix left
  and is folded in all the same, cut at the tenth digit: \<^verbatim>\<open>(-) 2 99999999999\<close> takes
  the accumulator 5 to \<open>-9999999996\<close>. The plain path of the same file tests \<^verbatim>\<open>i < line.size()\<close>
  after the parse and returns the accumulator; calc.cpp clears \<^verbatim>\<open>good\<close> in
  \<^verbatim>\<open>parse_arg\<close> and returns 5. The lemmas \<open>process_line_calc_unchanged\<close>,
  \<open>plain_p0_unchanged\<close> and \<open>process_line_p0_unchanged\<close> above give the claim
  everywhere else.
\<close>

theorem diagnostic_yet_changed:
  "process_line_p0 exact_ops 5 ''(-) 2 99999999999'' = Some (- 9999999996, [SuffixLeft ''9''])
   \<and> process_line_calc exact_ops 5 ''(-) 2 99999999999'' = Some (5, [SuffixLeft ''9''])"
  by (simp add: calc_eval)

text \<open>The fold of calc.cpp is all or nothing: on a bracketed line with a token that is not
  valid it returns the accumulator it was given, with a message.\<close>

lemma parse_arg_calc_reject:
  assumes "\<not> (list_all lit_char tok \<and> digits_in (butlast tok) < max_decimal_digits)"
  shows "\<exists>arg n ds. parse_arg_calc ops tok 0 True = (arg, n, False, ds) \<and> ds \<noteq> []"
proof -
  obtain r n g where run: "lit_run ops (d_lit ops 0) 0 True (d_lit ops 1) tok = (r, n, g)"
    by (cases "lit_run ops (d_lit ops 0) 0 True (d_lit ops 1) tok") auto
  from assms lit_run_accept_iff [where ops = ops and tok = tok]
  have "\<not> (g \<and> n = length tok)" unfolding run by simp
  moreover have "n \<le> length tok" by (rule lit_run_len [OF run])
  ultimately show ?thesis
    unfolding parse_arg_calc_lit_run run by auto
qed

lemma binary_calc_bad:
  "\<exists>res ds. binary_calc ops op left right False = (res, False, ds)"
  by (cases op) (auto simp: binary_calc_def)

lemma binary_calc_not_ok:
  "\<not> apply_ok ops op right \<Longrightarrow> \<exists>ds. binary_calc ops op left right good = (left, False, ds) \<and> ds \<noteq> []"
  by (cases op) (auto simp: binary_calc_def apply_ok_def)

lemma process_numbers_fold_invalid:
  "is_fold line \<Longrightarrow> op \<noteq> SET \<Longrightarrow> \<not> list_all (valid_token ops op) toks \<Longrightarrow>
   \<exists>ds'. process_numbers ops line op current res i True ds toks = (current, ds') \<and> ds' \<noteq> []"
proof (induction toks arbitrary: res i ds)
  case Nil
  then show ?case by simp
next
  case (Cons tok toks)
  show ?case
  proof (cases "valid_token ops op tok")
    case True
    with Cons.prems(3) have r: "\<not> list_all (valid_token ops op) toks" by simp
    from True have ok: "apply_ok ops op (lit_value ops tok)" by (simp add: valid_token_def)
    show ?thesis
      using Cons.prems(1,2) Cons.IH [OF Cons.prems(1,2) r]
      by (subst process_numbers.simps)
         (simp add: valid_token_parse(1) [OF True] binary_calc_ok [OF ok])
  next
    case False
    show ?thesis
    proof (cases "list_all lit_char tok \<and> digits_in (butlast tok) < max_decimal_digits")
      case lit: True
      with False have nok: "\<not> apply_ok ops op (lit_value ops tok)"
        by (simp add: valid_token_def accepted_literal_def)
      have pa: "parse_arg_calc ops tok 0 True = (lit_value ops tok, length tok, True, [])"
      proof -
        from lit have "list_all lit_char tok" "digits_in (butlast tok) < max_decimal_digits"
          by simp_all
        then have "lit_run ops (d_lit ops 0) 0 True (d_lit ops 1) tok
                         = (lit_value ops tok, length tok, True)"
          by (rule lit_run_full_value)
        then show ?thesis unfolding parse_arg_calc_lit_run by simp
      qed
      from binary_calc_not_ok [OF nok, of res True] obtain ds2 where
        "binary_calc ops op res (lit_value ops tok) True = (res, False, ds2)" "ds2 \<noteq> []" by auto
      then show ?thesis
        using Cons.prems(1,2) pa by (subst process_numbers.simps) simp
    next
      case lit: False
      from parse_arg_calc_reject [OF lit, of ops] obtain arg n ds1 where
        pa: "parse_arg_calc ops tok 0 True = (arg, n, False, ds1)" and ne: "ds1 \<noteq> []" by auto
      from binary_calc_bad [of ops op res arg] obtain res' ds2 where
        "binary_calc ops op res arg False = (res', False, ds2)" by auto
      then show ?thesis
        using Cons.prems(1,2) pa ne by (subst process_numbers.simps) simp
    qed
  qed
qed


lemma fold_line_calc_invalid:
  assumes c: "c \<in> set ''+-*/%^''"
    and v: "\<not> list_all (valid_token ops (op_of_char c)) (ws_tokens rest)"
  shows "\<exists>ds. process_line_calc ops current (CHR ''('' # c # CHR '')'' # rest) = Some (current, ds)
              \<and> ds \<noteq> []"
proof -
  let ?line = "CHR ''('' # c # CHR '')'' # rest"
  note f = op_char_facts [OF c]
  have db: "delete_brackets ?line = c # rest"
    using f(3,5)
    by (simp add: delete_brackets_def char_at_def delete_brackets_loop.simps substr_def
          not_space_bracket)
  have sb: "skip_brackets_calc ?line 1 = 3"
    using f(3)
    by (simp add: skip_brackets_calc_def char_at_def skip_brackets_loop.simps)
  from v have ne: "ws_tokens rest \<noteq> []" by auto
  have pn: "parse_number_calc ?line 3 = (ws_tokens rest, [])"
    using parse_number_loop_tokens [of 3 ?line "[]"] ne by (simp add: parse_number_calc_def)
  have fo: "is_fold ?line" by (simp add: is_fold_def char_at_def)
  from process_numbers_fold_invalid [OF fo f(2) v, of current current 3 "[]"]
  show ?thesis
    using f(1,2) sb pn
    by (simp add: process_line_calc_def parse_op_calc_def db f(7))
qed


text \<open>
  \<^bold>\<open>Claim C2\<close>: the code of part_000 breaks it, by the same defect. The token
  \<^verbatim>\<open>12345678901\<close> is no literal (it has eleven digits); \<^verbatim>\<open>left_fold\<close> of part_000
  folds its first ten digits in, and \<^verbatim>\<open>(+) 1 12345678901\<close> takes 0 to 1234567891.
  calc.cpp returns 0, as it returns the accumulator for every token that is not valid
  (\<open>fold_line_calc_invalid\<close> above). A token with a character that is no digit and no
  point, \<^verbatim>\<open>(+) 1 x 3\<close>, and a division by a zero token return the accumulator in both
  files.
\<close>

theorem left_fold_truncates_token:
  "process_line_p0 exact_ops 0 ''(+) 1 12345678901'' = Some (1234567891, [SuffixLeft ''1''])
   \<and> process_line_calc exact_ops 0 ''(+) 1 12345678901'' = Some (0, [SuffixLeft ''1''])
   \<and> process_line_p0 exact_ops 7 ''(+) 1 x 3'' = Some (7, [ArgParsingError 0 ''x'', WrongArguments])
   \<and> process_line_calc exact_ops 7 ''(+) 1 x 3'' = Some (7, [ArgParsingError 0 ''x''])
   \<and> process_line_p0 exact_ops 7 ''(/) 1 0'' = Some (7, [BadDivArg])
   \<and> process_line_calc exact_ops 7 ''(/) 1 0'' = Some (7, [BadDivArg])"
  by (simp add: calc_eval)


section \<open>Detecting a fold: the lines that are folded\<close>























end
